theory Spec2Isabelle
  imports Complex_Main
begin

section \<open>Strings and characters\<close>

text \<open>
  A JavaScript string is modelled as the list of its Unicode code points (\<open>nat\<close>), which
  is what the tokenizer's \<open>u\<close>-flagged regular expressions iterate over. The property
  \<open>length\<close> of a JavaScript string counts UTF-16 code units, so a code point above the
  Basic Multilingual Plane counts twice.
\<close>

type_synonym cp = nat
type_synonym jsstring = "cp list"

definition cps :: "string \<Rightarrow> jsstring" where
  "cps s = map of_char s"

definition js_length :: "jsstring \<Rightarrow> nat" where
  "js_length s = sum_list (map (\<lambda>c. if c \<ge> 65536 then 2 else 1) s)"

text \<open>
  The Unicode property classes \<open>\p{L}\<close> and \<open>\p{N}\<close> always occur together in the
  source, as \<open>[\p{L}\p{N}]\<close> or inside a negated class. Their tables are not part of
  the repository. Inside ASCII the class is the letters and the decimal digits; outside
  ASCII the table is a parameter \<open>U\<close> of every function that uses the class.
\<close>

definition ascii_alnum :: "cp \<Rightarrow> bool" where
  "ascii_alnum c = ((48 \<le> c \<and> c \<le> 57) \<or> (65 \<le> c \<and> c \<le> 90) \<or> (97 \<le> c \<and> c \<le> 122))"

definition isLN :: "(cp \<Rightarrow> bool) \<Rightarrow> cp \<Rightarrow> bool" where
  "isLN U c = (if c < 128 then ascii_alnum c else U c)"

record token =
  word :: jsstring
  isParagraphEnd :: bool

section \<open>JavaScript numbers\<close>

text \<open>
  A JavaScript number is a real number, one of the two infinities, or \<open>NaN\<close>. The
  rounding of doubles and the sign of zero are left out (a division by zero takes the
  zero as positive). A comparison with \<open>NaN\<close> is false; \<open>Math.max\<close>, \<open>Math.min\<close>,
  \<open>Math.floor\<close> and the arithmetic give \<open>NaN\<close> on \<open>NaN\<close>.
\<close>

datatype jsnum = Num real | PosInf | NegInf | NaN


fun js_le :: "jsnum \<Rightarrow> jsnum \<Rightarrow> bool" where
  "js_le (Num x) (Num y) = (x \<le> y)"
| "js_le NaN _ = False"
| "js_le _ NaN = False"
| "js_le NegInf _ = True"
| "js_le _ PosInf = True"
| "js_le _ _ = False"

fun js_gt :: "jsnum \<Rightarrow> jsnum \<Rightarrow> bool" where
  "js_gt (Num x) (Num y) = (x > y)"
| "js_gt NaN _ = False"
| "js_gt _ NaN = False"
| "js_gt NegInf _ = False"
| "js_gt _ PosInf = False"
| "js_gt _ _ = True"

fun js_max :: "jsnum \<Rightarrow> jsnum \<Rightarrow> jsnum" where
  "js_max (Num x) (Num y) = Num (max x y)"
| "js_max NaN _ = NaN"
| "js_max _ NaN = NaN"
| "js_max PosInf _ = PosInf"
| "js_max _ PosInf = PosInf"
| "js_max NegInf b = b"
| "js_max a NegInf = a"


fun js_floor :: "jsnum \<Rightarrow> jsnum" where
  "js_floor (Num x) = Num (of_int \<lfloor>x\<rfloor>)"
| "js_floor v = v"

text \<open>The product of an infinite number with \<open>b\<close>, by the sign of \<open>b\<close>.\<close>

definition infinite_times :: "bool \<Rightarrow> jsnum \<Rightarrow> jsnum" where
  "infinite_times positive b =
     (if js_gt b (Num 0) then (if positive then PosInf else NegInf)
      else if js_gt (Num 0) b then (if positive then NegInf else PosInf)
      else NaN)"

fun js_times :: "jsnum \<Rightarrow> jsnum \<Rightarrow> jsnum" where
  "js_times (Num x) (Num y) = Num (x * y)"
| "js_times NaN _ = NaN"
| "js_times _ NaN = NaN"
| "js_times PosInf b = infinite_times True b"
| "js_times NegInf b = infinite_times False b"
| "js_times a PosInf = infinite_times True a"
| "js_times a NegInf = infinite_times False a"

fun js_divide :: "jsnum \<Rightarrow> jsnum \<Rightarrow> jsnum" where
  "js_divide (Num x) (Num y) =
     (if y \<noteq> 0 then Num (x / y)
      else if x = 0 then NaN else if x > 0 then PosInf else NegInf)"
| "js_divide NaN _ = NaN"
| "js_divide _ NaN = NaN"
| "js_divide (Num x) _ = Num 0"
| "js_divide PosInf (Num y) = (if y \<ge> 0 then PosInf else NegInf)"
| "js_divide NegInf (Num y) = (if y \<ge> 0 then NegInf else PosInf)"
| "js_divide _ _ = NaN"

section \<open>Pause profiles and the pacing computation (app.js)\<close>

record pause_profile =
  name :: string
  sentence :: real
  comma :: real
  "paragraph" :: real
  longWord :: real
  number :: real
  minSentenceMs :: int
  minCommaMs :: int

definition relaxed :: pause_profile where
  "relaxed = \<lparr> name = ''Relaxed'', sentence = 4.0, comma = 2.0, paragraph = 4.0,
     longWord = 1.5, number = 2.0, minSentenceMs = 400, minCommaMs = 200 \<rparr>"

definition normal :: pause_profile where
  "normal = \<lparr> name = ''Normal'', sentence = 3.0, comma = 1.5, paragraph = 3.0,
     longWord = 1.3, number = 1.5, minSentenceMs = 300, minCommaMs = 150 \<rparr>"

definition speed :: pause_profile where
  "speed = \<lparr> name = ''Speed'', sentence = 1.5, comma = 1.2, paragraph = 1.5,
     longWord = 1.1, number = 1.2, minSentenceMs = 150, minCommaMs = 80 \<rparr>"

definition PAUSE_PROFILES :: "string \<rightharpoonup> pause_profile" where
  "PAUSE_PROFILES = [''relaxed'' \<mapsto> relaxed, ''normal'' \<mapsto> normal, ''speed'' \<mapsto> speed]"

text \<open>
  \<open>PAUSE_PROFILES\<close> is an object literal, so \<open>PAUSE_PROFILES[profileKey]\<close> also finds
  the members that every object inherits from \<open>Object.prototype\<close>. These are functions,
  or the prototype itself for \<open>__proto__\<close>: all are truthy, and none has a property
  named like a field of a profile.
\<close>

definition inheritedNames :: "string list" where
  "inheritedNames = [''constructor'', ''toString'', ''toLocaleString'', ''valueOf'',
     ''hasOwnProperty'', ''isPrototypeOf'', ''propertyIsEnumerable'', ''__proto__'',
     ''__defineGetter__'', ''__defineSetter__'', ''__lookupGetter__'', ''__lookupSetter__'']"

datatype active_profile = Profile pause_profile | Inherited

text \<open>
  \<open>PAUSE_PROFILES[profileKey] || PAUSE_PROFILES.normal\<close>: the fallback is taken only for
  a key that the lookup does not find at all.
\<close>

definition getActiveProfile :: "string \<Rightarrow> active_profile" where
  "getActiveProfile profileKey =
     (case PAUSE_PROFILES profileKey of
        Some p \<Rightarrow> Profile p
      | None \<Rightarrow> if profileKey \<in> set inheritedNames then Inherited else Profile normal)"

text \<open>
  Reading a field of the active profile as an argument of \<open>Math.max\<close>: the field of a
  profile is its number; on an inherited member the field is \<open>undefined\<close>, which
  \<open>Math.max\<close> converts to \<open>NaN\<close>.
\<close>

definition readField :: "(pause_profile \<Rightarrow> real) \<Rightarrow> active_profile \<Rightarrow> jsnum" where
  "readField f ap = (case ap of Profile p \<Rightarrow> Num (f p) | Inherited \<Rightarrow> NaN)"

text \<open>The variable \<open>wpm\<close> holds a JavaScript number.\<close>

definition baseIntervalMs :: "jsnum \<Rightarrow> jsnum option" where
  "baseIntervalMs wpm =
     (if js_le wpm (Num 0) then None
      else Some (js_max (Num 1) (js_floor (js_divide (Num 60000) wpm))))"

text \<open>\<open>/[.!?]$/\<close>, \<open>/[,;:]$/\<close> and \<open>/\d/\<close>, as tests on a string.\<close>

definition endsSentence :: "jsstring \<Rightarrow> bool" where
  "endsSentence w = (w \<noteq> [] \<and> last w \<in> {46, 33, 63})"

definition endsComma :: "jsstring \<Rightarrow> bool" where
  "endsComma w = (w \<noteq> [] \<and> last w \<in> {44, 59, 58})"

definition hasDigit :: "jsstring \<Rightarrow> bool" where
  "hasDigit w = (\<exists>c \<in> set w. 48 \<le> c \<and> c \<le> 57)"

datatype error = TypeError

text \<open>
  \<open>dwellMsForToken\<close> reads the globals \<open>wpm\<close> and \<open>profileKey\<close>; they are arguments
  here. The token is \<open>None\<close> when the caller read \<open>words[index]\<close> out of range
  (\<open>undefined\<close>): then \<open>token.word\<close> throws, but only after the check of the base
  interval. The result \<open>Inr None\<close> is \<open>null\<close>.
\<close>

definition dwellMsForToken ::
  "(cp \<Rightarrow> bool) \<Rightarrow> jsnum \<Rightarrow> string \<Rightarrow> token option \<Rightarrow> error + jsnum option" where
  "dwellMsForToken U wpm profileKey tok =
     (case baseIntervalMs wpm of
        None \<Rightarrow> Inr None
      | Some base \<Rightarrow>
          (case tok of
             None \<Rightarrow> Inl TypeError
           | Some t \<Rightarrow>
               (let profile = getActiveProfile profileKey;
                    w = word t;
                    m0 = Num 1.0;
                    m1 = (if endsSentence w then js_max m0 (readField sentence profile)
                          else if endsComma w then js_max m0 (readField comma profile)
                          else m0);
                    cleanWord = filter (isLN U) w;
                    m2 = (if js_length cleanWord > 8 then js_max m1 (readField longWord profile)
                          else m1);
                    m3 = (if hasDigit w then js_max m2 (readField number profile) else m2);
                    multiplier = (if isParagraphEnd t then js_max m3 (readField paragraph profile)
                                  else m3);
                    dwell = js_floor (js_times base multiplier);
                    dwell' = (if endsSentence w
                              then js_max dwell (readField (\<lambda>p. of_int (minSentenceMs p)) profile)
                              else if endsComma w
                              then js_max dwell (readField (\<lambda>p. of_int (minCommaMs p)) profile)
                              else dwell)
                in Inr (Some dwell'))))"

section \<open>The tokenizer (app.js \<open>tokenize\<close>, PDF loader \<open>tokenizePage\<close>)\<close>

text \<open>
  The class \<open>\s\<close> of a JavaScript regular expression, which is also the set of
  characters that \<open>String.prototype.trim\<close> strips: the white space and line terminator
  code points of ECMAScript.
\<close>

definition js_space :: "cp \<Rightarrow> bool" where
  "js_space c = (c = 9 \<or> c = 10 \<or> c = 11 \<or> c = 12 \<or> c = 13 \<or> c = 32 \<or> c = 160
     \<or> c = 5760 \<or> (8192 \<le> c \<and> c \<le> 8202) \<or> c = 8232 \<or> c = 8233 \<or> c = 8239
     \<or> c = 8287 \<or> c = 12288 \<or> c = 65279)"

definition trim :: "jsstring \<Rightarrow> jsstring" where
  "trim s = rev (dropWhile js_space (rev (dropWhile js_space s)))"

subsection \<open>Normalising line endings and splitting paragraphs\<close>

text \<open>\<open>.replace(/\r\n/g, '\n')\<close>\<close>

fun replace_crlf :: "jsstring \<Rightarrow> jsstring" where
  "replace_crlf [] = []"
| "replace_crlf [c] = [c]"
| "replace_crlf (c # d # cs) =
     (if c = 13 \<and> d = 10 then 10 # replace_crlf cs else c # replace_crlf (d # cs))"

text \<open>\<open>.replace(/\r/g, '\n')\<close>\<close>

definition replace_cr :: "jsstring \<Rightarrow> jsstring" where
  "replace_cr s = map (\<lambda>c. if c = 13 then 10 else c) s"

text \<open>\<open>.replace(/\n{2,}/g, '\n\n')\<close>: a greedy run of two or more line feeds becomes two.\<close>

function collapse_newlines :: "jsstring \<Rightarrow> jsstring" where
  "collapse_newlines [] = []"
| "collapse_newlines (c # cs) =
     (if c = 10 \<and> cs \<noteq> [] \<and> hd cs = 10
      then 10 # 10 # collapse_newlines (dropWhile (\<lambda>d. d = 10) cs)
      else c # collapse_newlines cs)"
  by pat_completeness auto
termination
  by (relation "measure length") (auto simp: less_Suc_eq_le length_dropWhile_le)

definition normalizeText :: "jsstring \<Rightarrow> jsstring" where
  "normalizeText text = collapse_newlines (replace_cr (replace_crlf text))"

text \<open>
  \<open>normalized.split(/\n\n+/)\<close>. The first argument is the piece collected since the last
  separator. The empty string splits into one empty piece; a separator at either end of
  the string leaves an empty piece there.
\<close>

function split_acc :: "jsstring \<Rightarrow> jsstring \<Rightarrow> jsstring list" where
  "split_acc piece [] = [piece]"
| "split_acc piece (c # cs) =
     (if c = 10 \<and> cs \<noteq> [] \<and> hd cs = 10
      then piece # split_acc [] (dropWhile (\<lambda>d. d = 10) cs)
      else split_acc (piece @ [c]) cs)"
  by pat_completeness auto
termination
  by (relation "measure (\<lambda>(piece, s). length s)") (auto simp: less_Suc_eq_le length_dropWhile_le)

definition splitParagraphs :: "jsstring \<Rightarrow> jsstring list" where
  "splitParagraphs s = split_acc [] s"

subsection \<open>The token regular expression\<close>

text \<open>
  \<open>/https?:\/\/[^\s]+|www\.[^\s]+|[\p{L}\p{N}]+(?:[''][\p{L}\p{N}]+)*(?:\.[\p{L}\p{N}]+)*|[^\p{L}\p{N}\s]+/gu\<close>

  Each alternative is tried at the current position, in this order, and returns the
  matched text with the rest of the string. Every quantifier is greedy and no
  alternative is followed by anything, so the first attempt of a quantifier that
  succeeds is the match. Both characters of the class \<open>['']\<close> are U+0027.
\<close>

fun strip_prefix :: "jsstring \<Rightarrow> jsstring \<Rightarrow> jsstring option" where
  "strip_prefix [] s = Some s"
| "strip_prefix (p # ps) [] = None"
| "strip_prefix (p # ps) (c # cs) = (if p = c then strip_prefix ps cs else None)"

text \<open>\<open>[^\s]+\<close>\<close>

definition nonspace_run :: "jsstring \<Rightarrow> (jsstring \<times> jsstring) option" where
  "nonspace_run s =
     (let m = takeWhile (\<lambda>c. \<not> js_space c) s
      in if m = [] then None else Some (m, dropWhile (\<lambda>c. \<not> js_space c) s))"

text \<open>\<open>:\/\/[^\s]+\<close>, the part of the first alternative after the optional \<open>s\<close>.\<close>

definition url_tail :: "jsstring \<Rightarrow> (jsstring \<times> jsstring) option" where
  "url_tail s =
     (case strip_prefix (cps ''://'') s of
        None \<Rightarrow> None
      | Some r \<Rightarrow>
          (case nonspace_run r of
             None \<Rightarrow> None
           | Some (m, rest) \<Rightarrow> Some (cps ''://'' @ m, rest)))"

text \<open>\<open>https?:\/\/[^\s]+\<close>: the optional \<open>s\<close> is tried first, then skipped.\<close>

definition match_http :: "jsstring \<Rightarrow> (jsstring \<times> jsstring) option" where
  "match_http s =
     (case strip_prefix (cps ''http'') s of
        None \<Rightarrow> None
      | Some r \<Rightarrow>
          (case (case strip_prefix (cps ''s'') r of None \<Rightarrow> None | Some r' \<Rightarrow> url_tail r') of
             Some (m, rest) \<Rightarrow> Some (cps ''https'' @ m, rest)
           | None \<Rightarrow>
               (case url_tail r of
                  None \<Rightarrow> None
                | Some (m, rest) \<Rightarrow> Some (cps ''http'' @ m, rest))))"

text \<open>\<open>www\.[^\s]+\<close>\<close>

definition match_www :: "jsstring \<Rightarrow> (jsstring \<times> jsstring) option" where
  "match_www s =
     (case strip_prefix (cps ''www.'') s of
        None \<Rightarrow> None
      | Some r \<Rightarrow>
          (case nonspace_run r of
             None \<Rightarrow> None
           | Some (m, rest) \<Rightarrow> Some (cps ''www.'' @ m, rest)))"

text \<open>
  \<open>(?:j[\p{L}\p{N}]+)*\<close> for a joining character \<open>j\<close>: as many groups as match, each
  the joiner followed by a maximal run of letters and digits.
\<close>

function joined_runs :: "(cp \<Rightarrow> bool) \<Rightarrow> cp \<Rightarrow> jsstring \<Rightarrow> jsstring \<times> jsstring" where
  "joined_runs U j [] = ([], [])"
| "joined_runs U j (c # cs) =
     (if c = j \<and> cs \<noteq> [] \<and> isLN U (hd cs)
      then (let (m, rest) = joined_runs U j (dropWhile (isLN U) cs)
            in (c # takeWhile (isLN U) cs @ m, rest))
      else ([], c # cs))"
  by pat_completeness auto
termination
  by (relation "measure (\<lambda>(U, j, s). length s)") (auto simp: less_Suc_eq_le length_dropWhile_le)

text \<open>\<open>[\p{L}\p{N}]+(?:[''][\p{L}\p{N}]+)*(?:\.[\p{L}\p{N}]+)*\<close>\<close>

definition match_word :: "(cp \<Rightarrow> bool) \<Rightarrow> jsstring \<Rightarrow> (jsstring \<times> jsstring) option" where
  "match_word U s =
     (let m0 = takeWhile (isLN U) s
      in if m0 = [] then None
         else (let (m1, r1) = joined_runs U 39 (dropWhile (isLN U) s);
                   (m2, r2) = joined_runs U 46 r1
               in Some (m0 @ m1 @ m2, r2)))"

text \<open>\<open>[^\p{L}\p{N}\s]+\<close>\<close>

definition match_punct :: "(cp \<Rightarrow> bool) \<Rightarrow> jsstring \<Rightarrow> (jsstring \<times> jsstring) option" where
  "match_punct U s =
     (let m = takeWhile (\<lambda>c. \<not> isLN U c \<and> \<not> js_space c) s
      in if m = [] then None
         else Some (m, dropWhile (\<lambda>c. \<not> isLN U c \<and> \<not> js_space c) s))"

definition match_token :: "(cp \<Rightarrow> bool) \<Rightarrow> jsstring \<Rightarrow> (jsstring \<times> jsstring) option" where
  "match_token U s =
     (case match_http s of
        Some r \<Rightarrow> Some r
      | None \<Rightarrow>
          (case match_www s of
             Some r \<Rightarrow> Some r
           | None \<Rightarrow>
               (case match_word U s of
                  Some r \<Rightarrow> Some r
                | None \<Rightarrow> match_punct U s)))"

text \<open>Every alternative consumes at least one character, so the scan below terminates.\<close>

lemma strip_prefix_length: "strip_prefix p s = Some r \<Longrightarrow> length r \<le> length s"
  by (induction p s rule: strip_prefix.induct) (auto split: if_splits)

lemma nonspace_run_shorter: "nonspace_run s = Some (m, rest) \<Longrightarrow> length rest < length s"
proof -
  assume a: "nonspace_run s = Some (m, rest)"
  let ?P = "\<lambda>c. \<not> js_space c"
  from a have m: "takeWhile ?P s \<noteq> []" and r: "rest = dropWhile ?P s"
    by (auto simp: nonspace_run_def Let_def split: if_splits)
  have "length (takeWhile ?P s) + length (dropWhile ?P s) = length s"
    by (metis length_append takeWhile_dropWhile_id)
  with m r show ?thesis by (cases "takeWhile ?P s") auto
qed

lemma url_tail_shorter: "url_tail s = Some (m, rest) \<Longrightarrow> length rest < length s"
  by (auto simp: url_tail_def split: option.splits
           dest!: strip_prefix_length nonspace_run_shorter)

lemma match_http_shorter: "match_http s = Some (m, rest) \<Longrightarrow> length rest < length s"
  by (auto simp: match_http_def split: option.splits
           dest!: strip_prefix_length url_tail_shorter)

lemma match_www_shorter: "match_www s = Some (m, rest) \<Longrightarrow> length rest < length s"
  by (auto simp: match_www_def split: option.splits
           dest!: strip_prefix_length nonspace_run_shorter)

lemma joined_runs_length: "joined_runs U j s = (m, rest) \<Longrightarrow> length rest \<le> length s"
proof (induction U j s arbitrary: m rest rule: joined_runs.induct)
  case (1 U j)
  then show ?case by simp
next
  case (2 U j c cs)
  show ?case
  proof (cases "c = j \<and> cs \<noteq> [] \<and> isLN U (hd cs)")
    case True
    obtain m' rest' where jr: "joined_runs U j (dropWhile (isLN U) cs) = (m', rest')"
      by (cases "joined_runs U j (dropWhile (isLN U) cs)") auto
    from "2.IH" [OF True jr] have "length rest' \<le> length (dropWhile (isLN U) cs)" .
    moreover have "length (dropWhile (isLN U) cs) \<le> length cs"
      by (rule length_dropWhile_le)
    moreover from "2.prems" True jr have "rest = rest'" by simp
    ultimately show ?thesis by simp
  next
    case False
    with "2.prems" show ?thesis by auto
  qed
qed

lemma match_word_shorter: "match_word U s = Some (m, rest) \<Longrightarrow> length rest < length s"
proof -
  assume a: "match_word U s = Some (m, rest)"
  obtain m1 r1 where j1: "joined_runs U 39 (dropWhile (isLN U) s) = (m1, r1)"
    by (cases "joined_runs U 39 (dropWhile (isLN U) s)") auto
  obtain m2 r2 where j2: "joined_runs U 46 r1 = (m2, r2)"
    by (cases "joined_runs U 46 r1") auto
  from a j1 j2 have ne: "takeWhile (isLN U) s \<noteq> []" and r: "rest = r2"
    by (auto simp: match_word_def Let_def split: if_splits)
  have "length (takeWhile (isLN U) s) + length (dropWhile (isLN U) s) = length s"
    by (metis length_append takeWhile_dropWhile_id)
  with ne have "length (dropWhile (isLN U) s) < length s"
    by (cases "takeWhile (isLN U) s") auto
  with joined_runs_length [OF j1] joined_runs_length [OF j2] r show ?thesis by simp
qed

lemma match_punct_shorter: "match_punct U s = Some (m, rest) \<Longrightarrow> length rest < length s"
proof -
  assume a: "match_punct U s = Some (m, rest)"
  let ?P = "\<lambda>c. \<not> isLN U c \<and> \<not> js_space c"
  from a have m: "takeWhile ?P s \<noteq> []" and r: "rest = dropWhile ?P s"
    by (auto simp: match_punct_def Let_def split: if_splits)
  have "length (takeWhile ?P s) + length (dropWhile ?P s) = length s"
    by (metis length_append takeWhile_dropWhile_id)
  with m r show ?thesis by (cases "takeWhile ?P s") auto
qed

lemma match_token_shorter: "match_token U s = Some (m, rest) \<Longrightarrow> length rest < length s"
  by (auto simp: match_token_def split: option.splits
           dest: match_http_shorter match_www_shorter match_word_shorter match_punct_shorter)

text \<open>
  \<open>para.match(re)\<close> with the flag \<open>g\<close>: all matches from left to right; a position where
  no alternative matches is skipped.
\<close>

function match_all :: "(cp \<Rightarrow> bool) \<Rightarrow> jsstring \<Rightarrow> jsstring list" where
  "match_all U [] = []"
| "match_all U (c # cs) =
     (case match_token U (c # cs) of
        None \<Rightarrow> match_all U cs
      | Some (m, rest) \<Rightarrow> m # match_all U rest)"
  by pat_completeness auto
termination
  by (relation "measure (\<lambda>(U, s). length s)") (auto dest: match_token_shorter)

subsection \<open>Building the token list\<close>

definition ascii_lower :: "cp \<Rightarrow> cp" where
  "ascii_lower c = (if 65 \<le> c \<and> c \<le> 90 then c + 32 else c)"

text \<open>
  \<open>/^[\p{L}\p{N}]/u.test(t) || /^https?:\/\//i.test(t) || /^www\./i.test(t)\<close>. Without the
  flag \<open>u\<close>, the flag \<open>i\<close> folds no character outside ASCII onto an ASCII letter.
\<close>

definition isWordLike :: "(cp \<Rightarrow> bool) \<Rightarrow> jsstring \<Rightarrow> bool" where
  "isWordLike U t =
     ((t \<noteq> [] \<and> isLN U (hd t))
      \<or> strip_prefix (cps ''http://'') (map ascii_lower t) \<noteq> None
      \<or> strip_prefix (cps ''https://'') (map ascii_lower t) \<noteq> None
      \<or> strip_prefix (cps ''www.'') (map ascii_lower t) \<noteq> None)"

text \<open>
  The inner loop over the matches of one paragraph. \<open>output\<close> is the list shared by all
  paragraphs: punctuation is attached to the last token pushed so far, whichever
  paragraph pushed it, and dropped when there is none.
\<close>

fun addTokens :: "(cp \<Rightarrow> bool) \<Rightarrow> jsstring list \<Rightarrow> token list \<Rightarrow> token list" where
  "addTokens U [] output = output"
| "addTokens U (t # ts) output =
     addTokens U ts
       (if isWordLike U t then output @ [\<lparr>word = t, isParagraphEnd = False\<rparr>]
        else if length output > 0
             then butlast output @ [(last output)\<lparr>word := word (last output) @ t\<rparr>]
        else output)"

text \<open>
  The outer loop over the paragraphs. \<open>p < paragraphs.length - 1\<close> holds exactly when
  paragraphs remain after the current one.
\<close>

fun paragraphLoop :: "(cp \<Rightarrow> bool) \<Rightarrow> jsstring list \<Rightarrow> token list \<Rightarrow> token list" where
  "paragraphLoop U [] output = output"
| "paragraphLoop U (raw # rest) output =
     (let para = trim raw
      in if para = [] then paragraphLoop U rest output
         else (let output1 = addTokens U (match_all U para) output;
                   output2 = (if length output1 > 0 \<and> rest \<noteq> []
                              then butlast output1 @ [(last output1)\<lparr>isParagraphEnd := True\<rparr>]
                              else output1)
               in paragraphLoop U rest output2))"

definition tokenize :: "(cp \<Rightarrow> bool) \<Rightarrow> jsstring \<Rightarrow> token list" where
  "tokenize U text =
     (let output = paragraphLoop U (splitParagraphs (normalizeText text)) []
      in if length output > 0 then output else [\<lparr>word = [32], isParagraphEnd = False\<rparr>])"

definition tokenizePage :: "(cp \<Rightarrow> bool) \<Rightarrow> jsstring \<Rightarrow> token list" where
  "tokenizePage U text = paragraphLoop U (splitParagraphs (normalizeText text)) []"

subsection \<open>Word-like runs, for stating properties of the tokenizer\<close>









section \<open>The PDF loader (class \<open>PdfLoader\<close>)\<close>

subsection \<open>State\<close>

text \<open>
  \<open>loadedPages\<close> is a JavaScript \<open>Map\<close> and \<open>loadingPages\<close> a \<open>Set\<close>; both keep
  insertion order and are association lists and lists here. \<open>pageWordRanges\<close> is an
  array written at the index \<open>pageNum - 1\<close>, with holes where nothing was written. The
  field \<open>loadTime\<close> of a page and \<open>estimatedTotalWords\<close> are floating point numbers
  that nothing below reads; they are left out. The resolve functions queued in
  \<open>contentWaiters\<close> are named by the numbers of their promises.
\<close>

record page_data =
  "text" :: jsstring
  words :: "token list"

record word_range =
  start :: int
  "end" :: int

record loader =
  totalPages :: int
  loadedPages :: "(int \<times> page_data) list"
  loadingPages :: "int list"
  pageWordRanges :: "word_range option list"
  nextPageToLoad :: int
  isBackgroundLoading :: bool
  allPagesLoaded :: bool
  allText :: jsstring
  allWords :: "token list"
  contentWaiters :: "nat list"

text \<open>\<open>Map.prototype.has\<close>, \<open>get\<close> and \<open>set\<close>; \<open>Set.prototype.add\<close> and \<open>delete\<close>.\<close>

definition map_has :: "('k \<times> 'v) list \<Rightarrow> 'k \<Rightarrow> bool" where
  "map_has m k = (k \<in> set (map fst m))"

definition map_get :: "('k \<times> 'v) list \<Rightarrow> 'k \<Rightarrow> 'v option" where
  "map_get m k = map_of m k"

definition map_set :: "('k \<times> 'v) list \<Rightarrow> 'k \<Rightarrow> 'v \<Rightarrow> ('k \<times> 'v) list" where
  "map_set m k v =
     (if map_has m k then map (\<lambda>(k', v'). if k' = k then (k', v) else (k', v')) m
      else m @ [(k, v)])"

definition set_add :: "'k list \<Rightarrow> 'k \<Rightarrow> 'k list" where
  "set_add s k = (if k \<in> set s then s else s @ [k])"

definition set_delete :: "'k list \<Rightarrow> 'k \<Rightarrow> 'k list" where
  "set_delete s k = filter (\<lambda>k'. k' \<noteq> k) s"

text \<open>
  \<open>a[i] = v\<close> on an array with holes: an index past the end extends the array, a
  negative index names a property and leaves the elements alone.
\<close>

definition array_set :: "'a option list \<Rightarrow> int \<Rightarrow> 'a \<Rightarrow> 'a option list" where
  "array_set a i v =
     (if i < 0 then a
      else if nat i < length a then a[nat i := Some v]
      else a @ replicate (nat i - length a) None @ [Some v])"

definition array_get :: "'a option list \<Rightarrow> int \<Rightarrow> 'a option" where
  "array_get a i = (if 0 \<le> i \<and> nat i < length a then a ! nat i else None)"

text \<open>The constructor, for a document of \<open>n\<close> pages once \<open>init\<close> has read the page count.\<close>

definition newLoader :: "int \<Rightarrow> loader" where
  "newLoader n = \<lparr> totalPages = n, loadedPages = [], loadingPages = [], pageWordRanges = [],
     nextPageToLoad = 1, isBackgroundLoading = False, allPagesLoaded = False,
     allText = [], allWords = [], contentWaiters = [] \<rparr>"

subsection \<open>Rebuilding the aggregated content\<close>

text \<open>
  \<open>rebuildAggregatedContent\<close> resets \<open>allText\<close>, \<open>allWords\<close> and \<open>pageWordRanges\<close> and
  rebuilds them in a loop over the sorted page numbers, reading \<open>loadedPages\<close>.
  \<open>rebuildStep\<close> is the body of the loop on these three fields. The page numbers are
  the keys of the map, so \<open>get\<close> finds every one of them; the branch for a missing page
  is never taken. The callback \<open>onWordsUpdated\<close> at the end is recorded by the caller,
  \<open>loadPageSucceeds\<close> below.
\<close>

type_synonym aggregated = "jsstring \<times> token list \<times> word_range option list"

fun rebuildStep :: "(int \<times> page_data) list \<Rightarrow> aggregated \<Rightarrow> int \<Rightarrow> aggregated" where
  "rebuildStep pages (aText, aWords, aRanges) pageNum =
     (case map_get pages pageNum of
        None \<Rightarrow> (aText, aWords, aRanges)
      | Some pageData \<Rightarrow>
          (let startIdx = int (length aWords);
               aWords' = aWords @ words pageData
           in (aText @ text pageData @ [10, 10],
               aWords',
               array_set aRanges (pageNum - 1)
                 \<lparr> start = startIdx, end = int (length aWords') - 1 \<rparr>)))"

definition aggregate :: "(int \<times> page_data) list \<Rightarrow> aggregated" where
  "aggregate pages =
     (let sortedPages = sort (map fst pages)
      in foldl (rebuildStep pages) ([], [], []) sortedPages)"

definition rebuildAggregatedContent :: "loader \<Rightarrow> loader" where
  "rebuildAggregatedContent L =
     (let (aText, aWords, aRanges) = aggregate (loadedPages L)
      in L\<lparr> allText := aText, allWords := aWords, pageWordRanges := aRanges \<rparr>)"

definition needsMoreContent :: "loader \<Rightarrow> int \<Rightarrow> bool" where
  "needsMoreContent L currentWordIndex =
     (let hasMorePages = int (length (loadedPages L)) < totalPages L;
          nearEnd = currentWordIndex \<ge> int (length (allWords L)) - 10
      in hasMorePages \<and> nearEnd)"

text \<open>
  \<open>resolveWaiters\<close>: the loop shifts the first waiter off the queue and calls it, until
  the queue is empty. The second component lists the waiters in the order of the calls.
\<close>

fun drainWaiters :: "nat list \<Rightarrow> nat list \<Rightarrow> nat list \<times> nat list" where
  "drainWaiters [] called = ([], called)"
| "drainWaiters (waiter # queue) called = drainWaiters queue (called @ [waiter])"

definition resolveWaiters :: "loader \<Rightarrow> nat list \<times> loader" where
  "resolveWaiters L =
     (let (queue, called) = drainWaiters (contentWaiters L) []
      in (called, L\<lparr> contentWaiters := queue \<rparr>))"

subsection \<open>The loader among its callers\<close>

text \<open>
  Everything runs on one thread, so the loader is observed between the synchronous
  pieces of its methods. \<open>world\<close> is the loader with what its suspended callers and
  the PDF library hold:
  \<^item> \<open>fetching\<close>: the page requests handed to the PDF library that have not completed,
    each with the caller of \<open>loadPage\<close> that awaits it;
  \<^item> \<open>polling\<close>: the callers of \<open>loadPage\<close> that found their page loading and poll
    for it every 50 ms;
  \<^item> \<open>settled\<close>: the promises of \<open>loadPage\<close> settled so far, in order;
  \<^item> \<open>released\<close>: the promises of \<open>waitForContent\<close> resolved so far, in order;
  \<^item> \<open>nextWaiter\<close>: the number of the next promise of \<open>waitForContent\<close>;
  \<^item> \<open>bg\<close>: where the background cycle stands;
  \<^item> \<open>calls\<close>: the callbacks of the options invoked so far.
  The text of a page is what the extraction loop of \<open>loadPage\<close> builds from the items
  of the PDF library; it arrives with the completion of the request.
\<close>

datatype caller = Client nat | Background

datatype load_result = Text jsstring | Null | Failure

datatype bg_state = BgIdle | BgAwaiting | BgSettled bool | BgTimer nat

datatype callback = OnPageLoaded int | OnWordsUpdated nat | OnAllPagesLoaded | OnError

record world =
  pdf :: loader
  fetching :: "(int \<times> caller) list"
  polling :: "(caller \<times> int) list"
  settled :: "(caller \<times> load_result) list"
  released :: "nat list"
  nextWaiter :: nat
  bg :: bg_state
  calls :: "callback list"

definition newWorld :: "int \<Rightarrow> world" where
  "newWorld n = \<lparr> pdf = newLoader n, fetching = [], polling = [], settled = [],
     released = [], nextWaiter = 0, bg = BgIdle, calls = [] \<rparr>"

text \<open>
  A promise of \<open>loadPage\<close> settles. When the caller is the background cycle, its
  \<open>await\<close> has a result to resume with.
\<close>

definition settle :: "caller \<Rightarrow> load_result \<Rightarrow> world \<Rightarrow> world" where
  "settle c r w =
     w\<lparr> settled := settled w @ [(c, r)],
        bg := (if c = Background then BgSettled (r \<noteq> Failure) else bg w) \<rparr>"

text \<open>
  \<open>loadPage\<close>, from the call to the first \<open>await\<close>: the range check, the page already
  loaded, the page being loaded (the caller starts polling), or a new request.
\<close>

definition loadPage :: "caller \<Rightarrow> int \<Rightarrow> world \<Rightarrow> world" where
  "loadPage c pageNum w =
     (let L = pdf w
      in if pageNum < 1 \<or> pageNum > totalPages L then settle c Null w
         else if map_has (loadedPages L) pageNum
         then (case map_get (loadedPages L) pageNum of
                 Some pageData \<Rightarrow> settle c (Text (text pageData)) w
               | None \<Rightarrow> w)
         else if pageNum \<in> set (loadingPages L)
         then w\<lparr> polling := polling w @ [(c, pageNum)] \<rparr>
         else w\<lparr> pdf := L\<lparr> loadingPages := set_add (loadingPages L) pageNum \<rparr>,
                 fetching := fetching w @ [(pageNum, c)] \<rparr>)"

text \<open>
  \<open>loadPage\<close>, after the request of caller \<open>c\<close> for \<open>pageNum\<close> has delivered
  \<open>pageText\<close>: the \<open>try\<close> block from \<open>tokenizePage\<close> to \<open>return pageText\<close>.
\<close>

definition loadPageSucceeds :: "(cp \<Rightarrow> bool) \<Rightarrow> caller \<Rightarrow> int \<Rightarrow> jsstring \<Rightarrow> world \<Rightarrow> world" where
  "loadPageSucceeds U c pageNum pageText w =
     (let L = pdf w;
          pageWords = tokenizePage U pageText;
          L1 = L\<lparr> loadedPages := map_set (loadedPages L) pageNum
                                      \<lparr> text = pageText, words = pageWords \<rparr> \<rparr>;
          L2 = L1\<lparr> loadingPages := set_delete (loadingPages L1) pageNum \<rparr>;
          L3 = rebuildAggregatedContent L2;
          (called, L4) = resolveWaiters L3
      in settle c (Text pageText)
           (w\<lparr> pdf := L4,
               calls := calls w @ [OnWordsUpdated (length (allWords L3)), OnPageLoaded pageNum],
               released := released w @ called \<rparr>))"

text \<open>The \<open>catch\<close> block of \<open>loadPage\<close>.\<close>

definition loadPageFails :: "caller \<Rightarrow> int \<Rightarrow> world \<Rightarrow> world" where
  "loadPageFails c pageNum w =
     (let L = pdf w
      in settle c Failure
           (w\<lparr> pdf := L\<lparr> loadingPages := set_delete (loadingPages L) pageNum \<rparr>,
               calls := calls w @ [OnError] \<rparr>))"

text \<open>One firing of the interval of a polling caller.\<close>

definition pollTick :: "caller \<Rightarrow> int \<Rightarrow> world \<Rightarrow> world" where
  "pollTick c pageNum w =
     (if map_has (loadedPages (pdf w)) pageNum
      then (case map_get (loadedPages (pdf w)) pageNum of
              Some pageData \<Rightarrow>
                settle c (Text (text pageData)) (w\<lparr> polling := remove1 (c, pageNum) (polling w) \<rparr>)
            | None \<Rightarrow> w)
      else w)"

text \<open>
  \<open>waitForContent\<close>: the new promise is resolved at once, or its resolve function is
  queued.
\<close>

definition waitForContent :: "world \<Rightarrow> nat \<times> world" where
  "waitForContent w =
     (let L = pdf w; p = nextWaiter w
      in if length (loadingPages L) > 0 \<or> isBackgroundLoading L
         then (p, w\<lparr> pdf := L\<lparr> contentWaiters := contentWaiters L @ [p] \<rparr>,
                     nextWaiter := p + 1 \<rparr>)
         else (p, w\<lparr> released := released w @ [p], nextWaiter := p + 1 \<rparr>))"

text \<open>
  \<open>_loadNextPageInBackground\<close> up to its \<open>await\<close>, and \<open>startBackgroundLoading\<close>.
\<close>

definition loadNextPageInBackground :: "world \<Rightarrow> world" where
  "loadNextPageInBackground w =
     (let L = pdf w
      in if \<not> isBackgroundLoading L then w
         else if nextPageToLoad L > totalPages L
         then w\<lparr> pdf := L\<lparr> isBackgroundLoading := False, allPagesLoaded := True \<rparr>,
                 calls := calls w @ [OnAllPagesLoaded] \<rparr>
         else loadPage Background (nextPageToLoad L) (w\<lparr> bg := BgAwaiting \<rparr>))"

definition startBackgroundLoading :: "world \<Rightarrow> world" where
  "startBackgroundLoading w =
     (let L = pdf w
      in if isBackgroundLoading L \<or> allPagesLoaded L then w
         else loadNextPageInBackground (w\<lparr> pdf := L\<lparr> isBackgroundLoading := True \<rparr> \<rparr>))"

text \<open>
  \<open>_loadNextPageInBackground\<close> after its \<open>await\<close>: the next page number and a timer of
  50 ms after a page, of 100 ms after a failure.
\<close>

definition backgroundResumes :: "bool \<Rightarrow> world \<Rightarrow> world" where
  "backgroundResumes ok w =
     w\<lparr> pdf := (pdf w)\<lparr> nextPageToLoad := nextPageToLoad (pdf w) + 1 \<rparr>,
        bg := BgTimer (if ok then 50 else 100) \<rparr>"

subsection \<open>Events\<close>

text \<open>
  What can happen to a loader: a call of its interface, the completion of a request of
  the PDF library, the firing of a polling interval, the resumption of the background
  cycle and the firing of its timer. An event that cannot happen in a state (no such
  request, no such interval, no such timer) leaves the state as it is.
\<close>

datatype event =
    CallLoadPage nat int
  | FetchSucceeds int jsstring
  | FetchFails int
  | PollTick caller int
  | CallWaitForContent
  | CallStartBackgroundLoading
  | BackgroundResumes
  | BackgroundTimerFires

fun step :: "(cp \<Rightarrow> bool) \<Rightarrow> world \<Rightarrow> event \<Rightarrow> world" where
  "step U w (CallLoadPage c pageNum) = loadPage (Client c) pageNum w"
| "step U w (FetchSucceeds pageNum pageText) =
     (case map_of (fetching w) pageNum of
        None \<Rightarrow> w
      | Some c \<Rightarrow> loadPageSucceeds U c pageNum pageText
                    (w\<lparr> fetching := remove1 (pageNum, c) (fetching w) \<rparr>))"
| "step U w (FetchFails pageNum) =
     (case map_of (fetching w) pageNum of
        None \<Rightarrow> w
      | Some c \<Rightarrow> loadPageFails c pageNum
                    (w\<lparr> fetching := remove1 (pageNum, c) (fetching w) \<rparr>))"
| "step U w (PollTick c pageNum) =
     (if (c, pageNum) \<in> set (polling w) then pollTick c pageNum w else w)"
| "step U w CallWaitForContent = snd (waitForContent w)"
| "step U w CallStartBackgroundLoading = startBackgroundLoading w"
| "step U w BackgroundResumes =
     (case bg w of BgSettled ok \<Rightarrow> backgroundResumes ok w | _ \<Rightarrow> w)"
| "step U w BackgroundTimerFires =
     (case bg w of BgTimer d \<Rightarrow> loadNextPageInBackground (w\<lparr> bg := BgIdle \<rparr>) | _ \<Rightarrow> w)"

definition run :: "(cp \<Rightarrow> bool) \<Rightarrow> world \<Rightarrow> event list \<Rightarrow> world" where
  "run U w evs = foldl (step U) w evs"

subsection \<open>Notions for stating properties of the loader\<close>

text \<open>
  \<open>wordsOf pages k\<close> is the token list of the loaded page \<open>k\<close>; \<open>offsetOf pages p\<close>
  counts the tokens of the loaded pages whose number is below \<open>p\<close>; \<open>sliceOf r ws\<close> is
  the part of \<open>ws\<close> that the range \<open>r\<close> names. \<open>consistent\<close> collects what holds of a
  loader between any two events.
\<close>

definition wordsOf :: "(int \<times> page_data) list \<Rightarrow> int \<Rightarrow> token list" where
  "wordsOf pages k = (case map_get pages k of Some pageData \<Rightarrow> words pageData | None \<Rightarrow> [])"

definition offsetOf :: "(int \<times> page_data) list \<Rightarrow> int \<Rightarrow> nat" where
  "offsetOf pages p =
     length (concat (map (wordsOf pages) (filter (\<lambda>k. k < p) (sort (map fst pages)))))"

definition sliceOf :: "word_range \<Rightarrow> 'a list \<Rightarrow> 'a list" where
  "sliceOf r ws = take (nat (end r - start r + 1)) (drop (nat (start r)) ws)"

definition consistent :: "world \<Rightarrow> bool" where
  "consistent w =
     (let L = pdf w
      in distinct (map fst (loadedPages L))
         \<and> list_all (\<lambda>k. 1 \<le> k) (map fst (loadedPages L))
         \<and> distinct (map fst (fetching w))
         \<and> set (map fst (fetching w)) = set (loadingPages L)
         \<and> list_all (\<lambda>k. 1 \<le> k \<and> \<not> map_has (loadedPages L) k) (loadingPages L)
         \<and> (allText L, allWords L, pageWordRanges L) = aggregate (loadedPages L))"

text \<open>
  \<open>insertPos w e\<close>: where the event \<open>e\<close> puts new tokens into the aggregated sequence of
  \<open>w\<close>. The completion of page \<open>p\<close> puts them behind the tokens of the loaded pages with
  smaller numbers; no other event adds a token.
\<close>

definition insertPos :: "world \<Rightarrow> event \<Rightarrow> nat" where
  "insertPos w e =
     (case e of
        FetchSucceeds p s \<Rightarrow> offsetOf (loadedPages (pdf w)) p
      | _ \<Rightarrow> length (allWords (pdf w)))"

section \<open>The playback scheduler (app.js)\<close>

text \<open>
  The variables of the application that the scheduler reads and writes, with the part
  of the page and of the browser that it acts on:
  \<^item> \<open>words'\<close> is the variable \<open>words\<close> (the name \<open>words\<close> is the field of a page);
  \<^item> \<open>timerId\<close> is the handle of the last timer set, \<open>timers\<close> the timers of the browser
    that are armed, each with the delay it was given, and \<open>nextTimer\<close> the next handle
    (handles are positive, so a handle is truthy);
  \<^item> \<open>pdfLoader\<close> is the loader object with its callers, \<open>None\<close> for \<open>null\<close>;
  \<^item> \<open>awaiting\<close> lists the promises of \<open>waitForContent\<close> on which a callback of
    \<open>scheduleNext\<close> waits;
  \<^item> the last five fields are what \<open>updatePlayButton\<close>, \<open>updateNavButtons\<close> and
    \<open>showLoadingOverlay\<close> set in the page.
  Drawing the word and the progress bar (\<open>draw\<close>, \<open>updateProgress\<close>, \<open>totalWords\<close>) is
  left out.
\<close>

record app =
  words' :: "token list"
  index :: int
  currentWord :: jsstring
  isPlaying :: bool
  timerId :: "nat option"
  wpm :: jsnum
  profileKey :: string
  loopEnabled :: bool
  isPdfMode :: bool
  pdfLoader :: "world option"
  timers :: "(nat \<times> jsnum) list"
  nextTimer :: nat
  awaiting :: "nat list"
  playIconHidden :: bool
  pauseIconHidden :: bool
  backBtnDisabled :: bool
  fwdBtnDisabled :: bool
  loadingOverlayHidden :: bool

text \<open>\<open>words[index]\<close>: \<open>None\<close> is \<open>undefined\<close>, the value of a read out of range.\<close>

definition wordAt :: "token list \<Rightarrow> int \<Rightarrow> token option" where
  "wordAt ws i = (if 0 \<le> i \<and> nat i < length ws then Some (ws ! nat i) else None)"

definition stopLoop :: "app \<Rightarrow> app" where
  "stopLoop a =
     (case timerId a of
        Some t \<Rightarrow> a\<lparr> timers := filter (\<lambda>(h, ms). h \<noteq> t) (timers a), timerId := None \<rparr>
      | None \<Rightarrow> a)"

definition updatePlayButton :: "app \<Rightarrow> app" where
  "updatePlayButton a = a\<lparr> playIconHidden := isPlaying a, pauseIconHidden := \<not> isPlaying a \<rparr>"

definition updateNavButtons :: "app \<Rightarrow> app" where
  "updateNavButtons a =
     a\<lparr> backBtnDisabled := (isPlaying a \<or> index a \<le> 0),
        fwdBtnDisabled := (isPlaying a \<or> index a \<ge> int (length (words' a)) - 1) \<rparr>"

definition showLoadingOverlay :: "bool \<Rightarrow> app \<Rightarrow> app" where
  "showLoadingOverlay sh a =
     (let a1 = a\<lparr> loadingOverlayHidden := \<not> sh \<rparr>
      in if sh \<and> isPlaying a1 then stopLoop a1 else a1)"

text \<open>\<open>words[index]?.word || ' '\<close>: the empty string is falsy.\<close>

definition advanceTo :: "int \<Rightarrow> app \<Rightarrow> app" where
  "advanceTo newIndex a =
     (let i = max 0 (min (int (length (words' a)) - 1) newIndex);
          w = (case wordAt (words' a) i of
                 Some t \<Rightarrow> if word t = [] then [32] else word t
               | None \<Rightarrow> [32])
      in updateNavButtons (a\<lparr> index := i, currentWord := w \<rparr>))"

text \<open>\<open>timerId = setTimeout(..., ms)\<close>\<close>

definition setTimer :: "jsnum \<Rightarrow> app \<Rightarrow> app" where
  "setTimer ms a =
     a\<lparr> timers := timers a @ [(nextTimer a, ms)],
        timerId := Some (nextTimer a),
        nextTimer := nextTimer a + 1 \<rparr>"

text \<open>
  The first block of \<open>scheduleNext\<close>: in PDF mode, when the loader needs more content and
  the index is at the last word, show the overlay and wait for content. The result is
  \<open>None\<close> when the block does not return from \<open>scheduleNext\<close>.
\<close>

definition waitIfStarved :: "app \<Rightarrow> app option" where
  "waitIfStarved a =
     (case (if isPdfMode a then pdfLoader a else None) of
        None \<Rightarrow> None
      | Some w \<Rightarrow>
          (let needsMore = needsMoreContent (pdf w) (index a)
           in if needsMore \<and> index a \<ge> int (length (words' a)) - 1
              then (let a1 = showLoadingOverlay True a;
                        (p, w') = waitForContent w
                    in Some (a1\<lparr> pdfLoader := Some w', awaiting := awaiting a1 @ [p] \<rparr>))
              else None))"

text \<open>
  \<open>setPlaying\<close> and \<open>scheduleNext\<close> call each other. \<open>Inl TypeError\<close> is the exception
  of \<open>dwellMsForToken\<close> on an undefined token.
\<close>

function setPlaying :: "(cp \<Rightarrow> bool) \<Rightarrow> bool \<Rightarrow> app \<Rightarrow> error + app"
  and scheduleNext :: "(cp \<Rightarrow> bool) \<Rightarrow> app \<Rightarrow> error + app" where
  "setPlaying U v a =
     (let a1 = stopLoop (updatePlayButton (a\<lparr> isPlaying := v \<rparr>))
      in if v \<and> js_gt (wpm a1) (Num 0)
         then (case scheduleNext U a1 of
                 Inl e \<Rightarrow> Inl e
               | Inr a2 \<Rightarrow> Inr (updateNavButtons a2))
         else Inr (updateNavButtons a1))"
| "scheduleNext U a =
     (if \<not> isPlaying a then Inr a
      else (case waitIfStarved a of
              Some a' \<Rightarrow> Inr a'
            | None \<Rightarrow>
                if \<not> loopEnabled a \<and> index a \<ge> int (length (words' a)) - 1
                then setPlaying U False a
                else (case dwellMsForToken U (wpm a) (profileKey a) (wordAt (words' a) (index a)) of
                        Inl e \<Rightarrow> Inl e
                      | Inr None \<Rightarrow> Inr a
                      | Inr (Some ms) \<Rightarrow> Inr (setTimer ms a))))"
  by pat_completeness auto
termination
  by (relation "measure (\<lambda>x. case x of Inl (U, v, a) \<Rightarrow> (if v then 2 else 0) | Inr (U, a) \<Rightarrow> 1)")
     auto

declare setPlaying.simps [simp del] scheduleNext.simps [simp del]


text \<open>The callback of the timer that \<open>scheduleNext\<close> sets, run when timer \<open>h\<close> fires.\<close>

definition timerFires :: "(cp \<Rightarrow> bool) \<Rightarrow> nat \<Rightarrow> app \<Rightarrow> error + app" where
  "timerFires U h a0 =
     (let a = a0\<lparr> timers := filter (\<lambda>(h', ms). h' \<noteq> h) (timers a0) \<rparr>
      in if \<not> isPlaying a then Inr a
         else if index a < int (length (words' a)) - 1 then scheduleNext U (advanceTo (index a + 1) a)
         else if loopEnabled a then scheduleNext U (advanceTo 0 a)
         else setPlaying U False a)"

text \<open>
  The callback that \<open>scheduleNext\<close> gives to the promise of \<open>waitForContent\<close>, run once
  the promise \<open>p\<close> is resolved; \<open>pdfLoader.getAllWords()\<close> throws when \<open>pdfLoader\<close> has
  become \<open>null\<close>.
\<close>

definition contentArrived :: "(cp \<Rightarrow> bool) \<Rightarrow> nat \<Rightarrow> app \<Rightarrow> error + app" where
  "contentArrived U p a0 =
     (let a1 = showLoadingOverlay False (a0\<lparr> awaiting := remove1 p (awaiting a0) \<rparr>)
      in case pdfLoader a1 of
           None \<Rightarrow> Inl TypeError
         | Some w \<Rightarrow>
             (let a2 = a1\<lparr> words' := allWords (pdf w) \<rparr>
              in if isPlaying a2 then scheduleNext U a2 else Inr a2))"






section \<open>Properties of the pacing computation\<close>

lemmas pacing_defs = dwellMsForToken_def baseIntervalMs_def getActiveProfile_def readField_def
  PAUSE_PROFILES_def inheritedNames_def normal_def relaxed_def speed_def endsSentence_def
  endsComma_def hasDigit_def js_length_def isLN_def ascii_alnum_def cps_def

lemma Num_if: "(if c then Num a else Num b) = Num (if c then a else b)"
  by simp

lemma readField_Profile: "readField f (Profile p) = Num (f p)"
  by (simp add: readField_def)

lemma baseIntervalMs_positive:
  "0 < r \<Longrightarrow> baseIntervalMs (Num r) = Some (Num (max 1 (of_int \<lfloor>60000 / r\<rfloor>)))"
  by (simp add: baseIntervalMs_def)

text \<open>
  For a key that selects a profile (one of the three names, or a name that the object
  does not have, which selects \<open>normal\<close>) and a rate between 50 and 1500 words per minute,
  a token whose text ends in one of \<open>. ! ?\<close> gets a dwell of at least \<open>minSentenceMs\<close> of
  the profile, and a token whose text ends in one of \<open>, ; :\<close> gets a dwell of at least
  \<open>minCommaMs\<close>.
\<close>

lemma dwell_respects_minimum:
  assumes "50 \<le> r" and "r \<le> 1500" and "getActiveProfile key = Profile p"
  shows "(endsSentence (word t) \<longrightarrow>
           (\<exists>d. dwellMsForToken U (Num r) key (Some t) = Inr (Some (Num d))
                \<and> of_int (minSentenceMs p) \<le> d))
       \<and> (endsComma (word t) \<longrightarrow>
           (\<exists>d. dwellMsForToken U (Num r) key (Some t) = Inr (Some (Num d))
                \<and> of_int (minCommaMs p) \<le> d))"
proof -
  have pos: "0 < r" using assms by simp
  have excl: "endsComma (word t) \<Longrightarrow> \<not> endsSentence (word t)"
    by (auto simp: endsComma_def endsSentence_def)
  show ?thesis
    using excl
    by (simp add: dwellMsForToken_def baseIntervalMs_positive [OF pos] assms(3) readField_Profile
          Num_if Let_def split del: if_split cong: if_cong)
qed

lemma dwell_respects_minimum_example:
  "(\<exists>d. dwellMsForToken (\<lambda>_. False) (Num 1500) ''speed''
              (Some \<lparr>word = cps ''end.'', isParagraphEnd = False\<rparr>) = Inr (Some (Num d))
            \<and> of_int (minSentenceMs speed) \<le> d)
   \<and> (\<exists>d. dwellMsForToken (\<lambda>_. False) (Num 1500) ''speed''
              (Some \<lparr>word = cps ''but,'', isParagraphEnd = False\<rparr>) = Inr (Some (Num d))
            \<and> of_int (minCommaMs speed) \<le> d)"
proof -
  have s: "endsSentence (cps ''end.'')" and c: "endsComma (cps ''but,'')"
    by (simp_all add: endsSentence_def endsComma_def cps_def)
  have r: "(50::real) \<le> 1500" "(1500::real) \<le> 1500" by simp_all
  have k: "getActiveProfile ''speed'' = Profile speed"
    by (simp add: getActiveProfile_def PAUSE_PROFILES_def)
  from dwell_respects_minimum [OF r k, of "\<lparr>word = cps ''end.'', isParagraphEnd = False\<rparr>" "\<lambda>_. False"]
       dwell_respects_minimum [OF r k, of "\<lparr>word = cps ''but,'', isParagraphEnd = False\<rparr>" "\<lambda>_. False"]
       s c
  show ?thesis by simp
qed

text \<open>
  Claim C6, at the input where the code departs from it. The profile key is read from
  the local storage without a check. With the stored key \<open>constructor\<close> the lookup finds
  the inherited member, the fallback to \<open>normal\<close> is not taken, and at 300 words per
  minute the dwell of the token \<open>Hello.\<close> is \<open>NaN\<close>, which is not at least any minimum.
\<close>

theorem inherited_profile_key_gives_NaN:
  "getActiveProfile ''constructor'' = Inherited
   \<and> dwellMsForToken U (Num 300) ''constructor''
        (Some \<lparr>word = cps ''Hello.'', isParagraphEnd = False\<rparr>) = Inr (Some NaN)
   \<and> \<not> js_le (Num 300) NaN"
  by (simp add: pacing_defs)

text \<open>
  Claim C7. With the profile \<open>normal\<close> (sentence multiplier 3.0, \<open>minSentenceMs\<close> 300) at
  300 words per minute the base interval is 200 ms, the token \<open>Hello.\<close> dwells 600 ms and
  the token \<open>cat\<close> dwells 200 ms.
\<close>

theorem normal_profile_scenario:
  "getActiveProfile ''normal'' = Profile normal
   \<and> sentence normal = 3 \<and> minSentenceMs normal = 300
   \<and> baseIntervalMs (Num 300) = Some (Num 200)
   \<and> dwellMsForToken U (Num 300) ''normal''
        (Some \<lparr>word = cps ''Hello.'', isParagraphEnd = False\<rparr>) = Inr (Some (Num 600))
   \<and> dwellMsForToken U (Num 300) ''normal''
        (Some \<lparr>word = cps ''cat'', isParagraphEnd = False\<rparr>) = Inr (Some (Num 200))"
  by (simp add: pacing_defs)

section \<open>Properties of the tokenizer\<close>

subsection \<open>Characters of the pieces come from the text\<close>


lemma set_replace_crlf: "set (replace_crlf s) \<subseteq> set s"
  by (induction s rule: replace_crlf.induct) auto

lemma set_replace_cr: "set (replace_cr s) \<subseteq> insert 10 (set s)"
  by (auto simp: replace_cr_def)

lemma set_dropWhile_subset: "set (dropWhile P s) \<subseteq> set s"
  by (induction s) auto

lemma set_collapse_newlines: "set (collapse_newlines s) \<subseteq> set s"
proof (induction s rule: collapse_newlines.induct)
  case 1
  then show ?case by simp
next
  case (2 c cs)
  show ?case
  proof (cases "c = 10 \<and> cs \<noteq> [] \<and> hd cs = 10")
    case True
    with "2.IH"(1) have "set (collapse_newlines (dropWhile (\<lambda>d. d = 10) cs)) \<subseteq> set cs"
      using set_dropWhile_subset [of "\<lambda>d. d = 10" cs] by blast
    with True show ?thesis by auto
  next
    case False
    with "2.IH"(2) show ?thesis by auto
  qed
qed

lemma set_normalizeText: "set (normalizeText s) \<subseteq> insert 10 (set s)"
  unfolding normalizeText_def
  using set_collapse_newlines [of "replace_cr (replace_crlf s)"]
        set_replace_cr [of "replace_crlf s"] set_replace_crlf [of s]
  by blast

lemma set_split_acc: "p \<in> set (split_acc piece s) \<Longrightarrow> set p \<subseteq> set piece \<union> set s"
proof (induction piece s rule: split_acc.induct)
  case (1 piece)
  then show ?case by simp
next
  case (2 piece c cs)
  show ?case
  proof (cases "c = 10 \<and> cs \<noteq> [] \<and> hd cs = 10")
    case True
    with "2.prems" have "p = piece \<or> p \<in> set (split_acc [] (dropWhile (\<lambda>d. d = 10) cs))"
      by simp
    then show ?thesis
    proof
      assume "p = piece"
      then show ?thesis by auto
    next
      assume "p \<in> set (split_acc [] (dropWhile (\<lambda>d. d = 10) cs))"
      from "2.IH"(1) [OF True this] set_dropWhile_subset [of "\<lambda>d. d = 10" cs]
      show ?thesis by auto
    qed
  next
    case False
    with "2.prems" have "p \<in> set (split_acc (piece @ [c]) cs)" by auto
    from "2.IH"(2) [OF False this] show ?thesis by auto
  qed
qed

lemma set_splitParagraphs: "p \<in> set (splitParagraphs s) \<Longrightarrow> set p \<subseteq> set s"
  unfolding splitParagraphs_def by (drule set_split_acc) simp

lemma set_trim: "set (trim s) \<subseteq> set s"
  unfolding trim_def
  using set_dropWhile_subset [of js_space "rev (dropWhile js_space s)"]
        set_dropWhile_subset [of js_space s]
  by auto

lemma trim_all_space: "\<forall>c\<in>set s. js_space c \<Longrightarrow> trim s = []"
  by (auto simp: trim_def dest: set_dropWhileD)

lemma paragraphLoop_all_blank:
  "\<forall>p\<in>set ps. trim p = [] \<Longrightarrow> paragraphLoop U ps out = out"
  by (induction ps arbitrary: out) auto

lemma paragraphs_of_blank_text:
  assumes "\<forall>c\<in>set s. js_space c" and "p \<in> set (splitParagraphs (normalizeText s))"
  shows "trim p = []"
proof -
  have "set p \<subseteq> insert 10 (set s)"
    using set_splitParagraphs [OF assms(2)] set_normalizeText [of s] by blast
  moreover have "js_space 10" by (simp add: js_space_def)
  ultimately have "\<forall>c\<in>set p. js_space c" using assms(1) by auto
  then show ?thesis by (rule trim_all_space)
qed

lemma tokenizePage_blank: "\<forall>c\<in>set s. js_space c \<Longrightarrow> tokenizePage U s = []"
  unfolding tokenizePage_def
  by (rule paragraphLoop_all_blank) (blast intro: paragraphs_of_blank_text)

lemma tokenize_blank:
  "\<forall>c\<in>set s. js_space c \<Longrightarrow> tokenize U s = [\<lparr>word = [32], isParagraphEnd = False\<rparr>]"
  using tokenizePage_blank [of s U] by (simp add: tokenize_def tokenizePage_def)

subsection \<open>A match is a prefix of the scanned text\<close>

lemma strip_prefix_append: "strip_prefix p s = Some r \<Longrightarrow> s = p @ r"
  by (induction p s rule: strip_prefix.induct) (auto split: if_splits)

lemma nonspace_run_append: "nonspace_run s = Some (m, rest) \<Longrightarrow> s = m @ rest"
  by (auto simp: nonspace_run_def Let_def split: if_splits)

lemma url_tail_append: "url_tail s = Some (m, rest) \<Longrightarrow> s = m @ rest"
  by (auto simp: url_tail_def split: option.splits
           dest!: strip_prefix_append nonspace_run_append)

lemma match_http_append: "match_http s = Some (m, rest) \<Longrightarrow> s = m @ rest"
  by (auto simp: match_http_def cps_def split: option.splits
           dest!: strip_prefix_append url_tail_append)

lemma match_www_append: "match_www s = Some (m, rest) \<Longrightarrow> s = m @ rest"
  by (auto simp: match_www_def split: option.splits
           dest!: strip_prefix_append nonspace_run_append)

lemma joined_runs_append: "joined_runs U j s = (m, rest) \<Longrightarrow> s = m @ rest"
proof (induction U j s arbitrary: m rest rule: joined_runs.induct)
  case (1 U j)
  then show ?case by simp
next
  case (2 U j c cs)
  show ?case
  proof (cases "c = j \<and> cs \<noteq> [] \<and> isLN U (hd cs)")
    case True
    obtain m' rest' where jr: "joined_runs U j (dropWhile (isLN U) cs) = (m', rest')"
      by (cases "joined_runs U j (dropWhile (isLN U) cs)") auto
    from "2.IH" [OF True jr] have "dropWhile (isLN U) cs = m' @ rest'" .
    moreover from "2.prems" True jr
    have "m = c # takeWhile (isLN U) cs @ m'" and "rest = rest'" by auto
    moreover have "cs = takeWhile (isLN U) cs @ dropWhile (isLN U) cs" by simp
    ultimately show ?thesis by (metis append.assoc append_Cons)
  next
    case False
    with "2.prems" show ?thesis by auto
  qed
qed

lemma match_word_append: "match_word U s = Some (m, rest) \<Longrightarrow> s = m @ rest"
proof -
  assume a: "match_word U s = Some (m, rest)"
  obtain m1 r1 where j1: "joined_runs U 39 (dropWhile (isLN U) s) = (m1, r1)"
    by (cases "joined_runs U 39 (dropWhile (isLN U) s)") auto
  obtain m2 r2 where j2: "joined_runs U 46 r1 = (m2, r2)"
    by (cases "joined_runs U 46 r1") auto
  from a j1 j2 have m: "m = takeWhile (isLN U) s @ m1 @ m2" and r: "rest = r2"
    by (auto simp: match_word_def Let_def split: if_splits)
  have "s = takeWhile (isLN U) s @ dropWhile (isLN U) s" by simp
  also have "dropWhile (isLN U) s = m1 @ r1" by (rule joined_runs_append [OF j1])
  also have "r1 = m2 @ r2" by (rule joined_runs_append [OF j2])
  finally show ?thesis using m r by simp
qed

lemma match_punct_append: "match_punct U s = Some (m, rest) \<Longrightarrow> s = m @ rest"
  by (auto simp: match_punct_def Let_def split: if_splits)

lemma match_token_append: "match_token U s = Some (m, rest) \<Longrightarrow> s = m @ rest"
  by (auto simp: match_token_def split: option.splits
           dest: match_http_append match_www_append match_word_append match_punct_append)

lemma set_match_all: "m \<in> set (match_all U s) \<Longrightarrow> set m \<subseteq> set s"
proof (induction U s rule: match_all.induct)
  case (1 U)
  then show ?case by simp
next
  case (2 U c cs)
  show ?case
  proof (cases "match_token U (c # cs)")
    case None
    with "2.prems" have "m \<in> set (match_all U cs)" by simp
    from "2.IH"(1) [OF None this] show ?thesis by auto
  next
    case (Some a)
    obtain m' rest where a: "a = (m', rest)" by (cases a)
    from match_token_append [of U "c # cs" m' rest] Some a
    have eq: "c # cs = m' @ rest" by simp
    from "2.prems" Some a have "m = m' \<or> m \<in> set (match_all U rest)" by simp
    then show ?thesis
    proof
      assume "m = m'"
      with eq show ?thesis by (metis Un_upper1 set_append)
    next
      assume "m \<in> set (match_all U rest)"
      from "2.IH"(2) [OF Some a [symmetric] this] eq show ?thesis
        by (metis Un_upper2 set_append subset_trans)
    qed
  qed
qed

subsection \<open>Text without letters or digits yields no token\<close>


lemma strip_prefix_hd:
  "strip_prefix (p # ps) s \<noteq> None \<Longrightarrow> s \<noteq> [] \<and> hd s = p"
  by (cases s) (auto split: if_splits)

lemma ascii_lower_letter:
  "ascii_lower c = 104 \<or> ascii_lower c = 119 \<Longrightarrow> isLN U c"
  by (auto simp: ascii_lower_def isLN_def ascii_alnum_def split: if_splits)

lemma isWordLike_hd: "isWordLike U t \<Longrightarrow> t \<noteq> [] \<and> isLN U (hd t)"
proof -
  assume a: "isWordLike U t"
  have "t \<noteq> [] \<and> (ascii_lower (hd t) = 104 \<or> ascii_lower (hd t) = 119)"
    if "strip_prefix (p # ps) (map ascii_lower t) \<noteq> None" and "p = 104 \<or> p = 119" for p ps
    using strip_prefix_hd [OF that(1)] that(2) by (auto simp: hd_map)
  with a show ?thesis
    unfolding isWordLike_def cps_def
    by (auto intro: ascii_lower_letter)
qed

lemma addTokens_none_wordlike:
  "\<forall>t\<in>set ts. \<not> isWordLike U t \<Longrightarrow> addTokens U ts [] = []"
  by (induction ts) auto

lemma match_all_no_letters:
  assumes "\<forall>c\<in>set s. \<not> isLN U c" and "m \<in> set (match_all U s)"
  shows "\<not> isWordLike U m"
proof
  assume "isWordLike U m"
  then have "m \<noteq> []" and "isLN U (hd m)" using isWordLike_hd by blast+
  then have "hd m \<in> set m" by simp
  with set_match_all [OF assms(2)] assms(1) \<open>isLN U (hd m)\<close> show False by blast
qed

lemma paragraphLoop_no_letters:
  "\<forall>p\<in>set ps. \<forall>c\<in>set p. \<not> isLN U c \<Longrightarrow> paragraphLoop U ps [] = []"
proof (induction ps)
  case Nil
  then show ?case by simp
next
  case (Cons raw rest)
  have "\<forall>c\<in>set (trim raw). \<not> isLN U c"
    using Cons.prems set_trim [of raw] by auto
  then have "addTokens U (match_all U (trim raw)) [] = []"
    by (intro addTokens_none_wordlike ballI) (rule match_all_no_letters)
  with Cons show ?case by (simp add: Let_def)
qed

lemma tokenizePage_no_letters:
  assumes "\<forall>c\<in>set s. \<not> isLN U c"
  shows "tokenizePage U s = []"
proof -
  have "\<not> isLN U 10" by (simp add: isLN_def ascii_alnum_def)
  then have "\<forall>p\<in>set (splitParagraphs (normalizeText s)). \<forall>c\<in>set p. \<not> isLN U c"
    using assms set_splitParagraphs set_normalizeText [of s] by blast
  then show ?thesis unfolding tokenizePage_def by (rule paragraphLoop_no_letters)
qed

text \<open>
  Claim C8. \<open>tokenize\<close> is a total function whose result is never empty; the empty
  text, and any text that holds no letter and no digit (nothing in it can start a token),
  yields exactly the token whose text is one space and whose \<open>isParagraphEnd\<close> is false.
\<close>

theorem tokenize_total_nonempty:
  "tokenize U s \<noteq> []
   \<and> tokenize U [] = [\<lparr>word = [32], isParagraphEnd = False\<rparr>]
   \<and> ((\<forall>c\<in>set s. \<not> isLN U c) \<longrightarrow> tokenize U s = [\<lparr>word = [32], isParagraphEnd = False\<rparr>])"
proof -
  have a: "tokenize U s \<noteq> []" by (simp add: tokenize_def Let_def)
  have b: "tokenize U t = [\<lparr>word = [32], isParagraphEnd = False\<rparr>]"
    if "\<forall>c\<in>set t. \<not> isLN U c" for t
    using tokenizePage_no_letters [OF that] by (simp add: tokenize_def tokenizePage_def)
  from a b [of s] b [of "[]"] show ?thesis by simp
qed

theorem tokenize_total_nonempty_witness:
  "list_all (\<lambda>c. \<not> isLN (\<lambda>c. c = 233) c) (cps '' ... -- !?'')
   \<and> tokenize (\<lambda>c. c = 233) (cps '' ... -- !?'') = [\<lparr>word = [32], isParagraphEnd = False\<rparr>]"
proof -
  have h: "\<forall>c\<in>set (cps '' ... -- !?''). \<not> isLN (\<lambda>c. c = 233) c"
    by (simp add: cps_def isLN_def ascii_alnum_def)
  with tokenize_total_nonempty [of "\<lambda>c. c = 233" "cps '' ... -- !?''"] show ?thesis
    by (simp add: list_all_iff)
qed

subsection \<open>Word-like runs\<close>








subsection \<open>A single paragraph without line breaks\<close>








subsection \<open>Apostrophe groups before dot groups: one match\<close>















subsection \<open>A match does not look past white space\<close>

















subsection \<open>Tokens, once pushed, only gain punctuation\<close>









subsection \<open>A joined word inside a paragraph\<close>












subsection \<open>Line endings and paragraphs around a piece of text without white space\<close>































section \<open>Properties of the loader\<close>

subsection \<open>The rebuilt ranges\<close>


lemma array_set_extend:
  "int (length a) \<le> i \<Longrightarrow> array_set a i v = a @ replicate (nat i - length a) None @ [Some v]"
  by (auto simp: array_set_def)

lemma array_get_prefix:
  "take n b = a \<Longrightarrow> n \<le> length b \<Longrightarrow> 0 \<le> i \<Longrightarrow> nat i < n \<Longrightarrow> array_get b i = a ! nat i"
  by (auto simp: array_get_def)

lemma fold_rebuild:
  assumes "sorted ks" and "distinct ks"
    and "\<forall>k\<in>set ks. map_get pages k \<noteq> None \<and> int (length rs) < k"
  shows "\<exists>t' rs'. foldl (rebuildStep pages) (t, ws, rs) ks
                     = (t', ws @ concat (map (wordsOf pages) ks), rs')
           \<and> take (length rs) rs' = rs \<and> length rs \<le> length rs'
           \<and> (\<forall>i<length ks. array_get rs' (ks ! i - 1)
                  = Some \<lparr> start = int (length ws + length (concat (map (wordsOf pages) (take i ks)))),
                           end = int (length ws + length (concat (map (wordsOf pages) (take (Suc i) ks)))) - 1 \<rparr>)"
  using assms
proof (induction ks arbitrary: t ws rs)
  case Nil
  then show ?case by simp
next
  case (Cons k ks)
  let ?W = "wordsOf pages"
  from Cons.prems obtain pd where pd: "map_get pages k = Some pd" by auto
  have Wk: "?W k = words pd" by (simp add: wordsOf_def pd)
  from Cons.prems have len: "int (length rs) \<le> k - 1" by simp
  define r where "r = \<lparr> start = int (length ws), end = int (length (ws @ words pd)) - 1 \<rparr>"
  define rs1 where "rs1 = rs @ replicate (nat (k - 1) - length rs) None @ [Some r]"
  define t1 where "t1 = t @ text pd @ [10, 10]"
  have step: "rebuildStep pages (t, ws, rs) k = (t1, ws @ words pd, rs1)"
    by (simp add: pd Let_def array_set_extend [OF len] r_def rs1_def t1_def)
  have len1: "length rs1 = nat k" using len by (simp add: rs1_def)
  have gt: "k < k'" if "k' \<in> set ks" for k'
  proof -
    from Cons.prems(1,2) that have "k \<le> k'" "k \<noteq> k'" by auto
    then show ?thesis by simp
  qed
  have kpos: "0 \<le> k" using len by simp
  have rest: "\<forall>k'\<in>set ks. map_get pages k' \<noteq> None \<and> int (length rs1) < k'"
    using Cons.prems(3) len1 gt kpos by simp
  from Cons.prems have sd: "sorted ks" "distinct ks" by simp_all
  from Cons.IH [OF sd rest, of t1 "ws @ words pd"]
  obtain t' rs' where
    f: "foldl (rebuildStep pages) (t1, ws @ words pd, rs1) ks
          = (t', (ws @ words pd) @ concat (map ?W ks), rs')"
    and pre: "take (length rs1) rs' = rs1" and le: "length rs1 \<le> length rs'"
    and ent: "\<forall>i<length ks. array_get rs' (ks ! i - 1)
                = Some \<lparr> start = int (length (ws @ words pd) + length (concat (map ?W (take i ks)))),
                         end = int (length (ws @ words pd)
                                    + length (concat (map ?W (take (Suc i) ks)))) - 1 \<rparr>"
    by blast
  have lr: "length rs \<le> length rs1" by (simp add: rs1_def)
  then have "take (length rs) rs' = take (length rs) (take (length rs1) rs')"
    by (simp add: min_absorb1)
  also have "\<dots> = rs" unfolding pre by (simp add: rs1_def)
  finally have pre0: "take (length rs) rs' = rs" .
  have le0: "length rs \<le> length rs'" using le lr by simp
  have k1: "0 \<le> k - 1" "nat (k - 1) < length rs1" using len len1 by auto
  have "array_get rs' (k - 1) = rs1 ! nat (k - 1)"
    by (rule array_get_prefix [OF pre le k1])
  also have "\<dots> = Some r"
  proof -
    let ?pre = "rs @ replicate (nat (k - 1) - length rs) None"
    have "length ?pre = nat (k - 1)" using len by simp
    moreover have "rs1 = ?pre @ [Some r]" by (simp add: rs1_def)
    ultimately show ?thesis by (metis nth_append_length)
  qed
  finally have ent0: "array_get rs' (k - 1) = Some r" .
  have entries: "array_get rs' ((k # ks) ! i - 1)
      = Some \<lparr> start = int (length ws + length (concat (map ?W (take i (k # ks))))),
               end = int (length ws + length (concat (map ?W (take (Suc i) (k # ks))))) - 1 \<rparr>"
    if "i < length (k # ks)" for i
  proof (cases i)
    case 0
    then show ?thesis using ent0 by (simp add: r_def Wk)
  next
    case (Suc j)
    with that have "j < length ks" by simp
    with ent Suc show ?thesis by (simp add: Wk add.assoc)
  qed
  show ?case
    using step f pre0 le0 entries by (simp add: Wk)
qed

lemma map_get_key: "k \<in> set (map fst pages) \<Longrightarrow> map_get pages k \<noteq> None"
  by (simp add: map_get_def map_of_eq_None_iff)

lemma aggregate_props:
  assumes "distinct (map fst pages)" and "\<forall>k\<in>set (map fst pages). 1 \<le> k"
  defines "ks \<equiv> sort (map fst pages)"
  shows "\<exists>t' rs'. aggregate pages = (t', concat (map (wordsOf pages) ks), rs')
           \<and> (\<forall>i<length ks. array_get rs' (ks ! i - 1)
                  = Some \<lparr> start = int (length (concat (map (wordsOf pages) (take i ks)))),
                           end = int (length (concat (map (wordsOf pages) (take (Suc i) ks)))) - 1 \<rparr>)"
proof -
  have s: "sorted ks" and d: "distinct ks" using assms(1) by (simp_all add: ks_def)
  have k: "\<forall>k\<in>set ks. map_get pages k \<noteq> None \<and> int (length ([] :: word_range option list)) < k"
    using assms(2) map_get_key [of _ pages] by (fastforce simp: ks_def)
  from fold_rebuild [OF s d k, of "[]" "[]"] show ?thesis
    by (simp add: aggregate_def ks_def [symmetric])
qed


lemma concat_take_mono:
  "m \<le> n \<Longrightarrow> length (concat (map f (take m xs))) \<le> length (concat (map f (take n xs)))"
proof -
  assume "m \<le> n"
  then have "take n xs = take m xs @ take (n - m) (drop m xs)"
    by (metis le_add_diff_inverse take_add)
  then show ?thesis by simp
qed

lemma concat_take_Suc:
  "i < length xs \<Longrightarrow> concat (map f (take (Suc i) xs)) = concat (map f (take i xs)) @ f (xs ! i)"
  by (simp add: take_Suc_conv_app_nth)

lemma slice_of_concat:
  assumes "i < length ks"
  shows "sliceOf \<lparr> start = int (length (concat (map f (take i ks)))),
                   end = int (length (concat (map f (take (Suc i) ks)))) - 1 \<rparr>
           (concat (map f ks)) = f (ks ! i)"
proof -
  define r where "r = \<lparr> start = int (length (concat (map f (take i ks)))),
                  end = int (length (concat (map f (take (Suc i) ks)))) - 1 \<rparr>"
  have "ks = take i ks @ ks ! i # drop (Suc i) ks" using assms(1) by (rule id_take_nth_drop)
  then have "concat (map f ks)
      = concat (map f (take i ks)) @ f (ks ! i) @ concat (map f (drop (Suc i) ks))"
    by (metis concat.simps(2) concat_append list.simps(9) map_append)
  moreover have "nat (end r - start r + 1) = length (f (ks ! i))"
    by (simp add: r_def concat_take_Suc [OF assms(1)])
  moreover have "nat (start r) = length (concat (map f (take i ks)))" by (simp add: r_def)
  ultimately have "sliceOf r (concat (map f ks)) = f (ks ! i)" by (simp add: sliceOf_def)
  then show ?thesis by (simp add: r_def)
qed

lemma sorted_distinct_index_less:
  assumes "sorted ks" and "i < length ks" and "j < length ks" and "ks ! i < ks ! j"
  shows "i < j"
proof (rule ccontr)
  assume "\<not> i < j"
  then have "j \<le> i" by simp
  with assms(1,2) have "ks ! j \<le> ks ! i" by (simp add: sorted_nth_mono)
  with assms(4) show False by simp
qed

lemma aggregate_ranges_ordered:
  fixes pages :: "(int \<times> page_data) list"
  assumes d: "distinct (map fst pages)" and pos: "\<forall>k\<in>set (map fst pages). 1 \<le> k"
    and p: "p \<in> set (map fst pages)" and q: "q \<in> set (map fst pages)" and pq: "p < q"
    and agg: "aggregate pages = (aText, aWords, aRanges)"
  shows "\<exists>rp rq. array_get aRanges (p - 1) = Some rp \<and> array_get aRanges (q - 1) = Some rq
     \<and> 0 \<le> start rp \<and> end rp < start rq \<and> end rq < int (length aWords)
     \<and> end rp = start rp + int (length (wordsOf pages p)) - 1
     \<and> end rq = start rq + int (length (wordsOf pages q)) - 1
     \<and> sliceOf rp aWords = wordsOf pages p
     \<and> sliceOf rq aWords = wordsOf pages q"
proof -
  define ks where "ks = sort (map fst pages)"
  let ?W = "wordsOf pages"
  let ?A = "\<lambda>i. length (concat (map ?W (take i ks)))"
  let ?r = "\<lambda>i. \<lparr> start = int (?A i), end = int (?A (Suc i)) - 1 \<rparr>"
  from aggregate_props [OF d pos] agg
  have w: "aWords = concat (map ?W ks)"
    and ent: "\<forall>i<length ks. array_get aRanges (ks ! i - 1) = Some (?r i)"
    by (auto simp: ks_def)
  have s: "sorted ks" by (simp add: ks_def)
  from p obtain i where i: "i < length ks" "ks ! i = p"
    by (metis in_set_conv_nth ks_def set_sort)
  from q obtain j where j: "j < length ks" "ks ! j = q"
    by (metis in_set_conv_nth ks_def set_sort)
  have ij: "i < j" using sorted_distinct_index_less [OF s i(1) j(1)] i(2) j(2) pq by simp
  have Ai: "?A (Suc i) = ?A i + length (?W p)" using concat_take_Suc [OF i(1), of ?W] i(2) by simp
  have Aj: "?A (Suc j) = ?A j + length (?W q)" using concat_take_Suc [OF j(1), of ?W] j(2) by simp
  have mono: "?A (Suc i) \<le> ?A j" using ij by (intro concat_take_mono) simp
  have top: "?A (Suc j) \<le> length aWords"
    using concat_take_mono [of "Suc j" "length ks" ?W ks] j(1) by (simp add: w)
  have sp: "sliceOf (?r i) aWords = ?W p" using slice_of_concat [OF i(1), of ?W] i(2) w by simp
  have sq: "sliceOf (?r j) aWords = ?W q" using slice_of_concat [OF j(1), of ?W] j(2) w by simp
  have gp: "array_get aRanges (p - 1) = Some (?r i)" using ent i by auto
  have gq: "array_get aRanges (q - 1) = Some (?r j)" using ent j by auto
  show ?thesis
  proof (intro exI conjI)
    show "array_get aRanges (p - 1) = Some (?r i)" by (rule gp)
    show "array_get aRanges (q - 1) = Some (?r j)" by (rule gq)
    show "0 \<le> start (?r i)" by simp
    show "end (?r i) < start (?r j)" using mono by simp
    show "end (?r j) < int (length aWords)" using top by simp
    show "end (?r i) = start (?r i) + int (length (?W p)) - 1" using Ai by simp
    show "end (?r j) = start (?r j) + int (length (?W q)) - 1" using Aj by simp
    show "sliceOf (?r i) aWords = ?W p" by (rule sp)
    show "sliceOf (?r j) aWords = ?W q" by (rule sq)
  qed
qed

subsection \<open>What holds between events\<close>


lemma map_fst_remove1:
  "distinct (map fst xs) \<Longrightarrow> map_of xs p = Some c
   \<Longrightarrow> map fst (remove1 (p, c) xs) = remove1 p (map fst xs)"
  by (induction xs) (auto split: if_splits)

lemma drainWaiters_all: "drainWaiters queue called = ([], called @ queue)"
  by (induction queue arbitrary: called) auto

lemma resolveWaiters_eq: "resolveWaiters L = (contentWaiters L, L\<lparr> contentWaiters := [] \<rparr>)"
  by (simp add: resolveWaiters_def drainWaiters_all)

lemma rebuild_fields:
  "(allText (rebuildAggregatedContent L), allWords (rebuildAggregatedContent L),
    pageWordRanges (rebuildAggregatedContent L)) = aggregate (loadedPages L)"
  "loadedPages (rebuildAggregatedContent L) = loadedPages L"
  "loadingPages (rebuildAggregatedContent L) = loadingPages L"
  "contentWaiters (rebuildAggregatedContent L) = contentWaiters L"
  "isBackgroundLoading (rebuildAggregatedContent L) = isBackgroundLoading L"
  "totalPages (rebuildAggregatedContent L) = totalPages L"
  by (simp_all add: rebuildAggregatedContent_def split: prod.splits)

lemma consistent_newWorld: "consistent (newWorld n)"
  by (simp add: consistent_def newWorld_def newLoader_def aggregate_def)

lemma settle_fields [simp]:
  "pdf (settle c r w) = pdf w" "fetching (settle c r w) = fetching w"
  "polling (settle c r w) = polling w" "released (settle c r w) = released w"
  "calls (settle c r w) = calls w" "nextWaiter (settle c r w) = nextWaiter w"
  by (simp_all add: settle_def)

lemma consistent_settle [simp]: "consistent (settle c r w) = consistent w"
  by (simp add: consistent_def settle_def)

lemma consistent_bg [simp]: "consistent (w\<lparr> bg := b \<rparr>) = consistent w"
  by (simp add: consistent_def)

lemma consistent_loadPage: "consistent w \<Longrightarrow> consistent (loadPage c p w)"
  by (auto simp: loadPage_def Let_def consistent_def set_add_def list_all_iff
           split: option.splits)

lemma consistent_loadPageFails:
  assumes "consistent w" and "map_of (fetching w) p = Some c"
  shows "consistent (loadPageFails c p (w\<lparr> fetching := remove1 (p, c) (fetching w) \<rparr>))"
proof -
  from assms have d: "distinct (map fst (fetching w))"
    by (simp add: consistent_def Let_def)
  note m = map_fst_remove1 [OF d assms(2)]
  show ?thesis
    using assms(1) d
    by (auto simp: loadPageFails_def Let_def consistent_def set_delete_def list_all_iff m)
qed

lemma consistent_loadPageSucceeds:
  assumes "consistent w" and "map_of (fetching w) p = Some c"
  shows "consistent (loadPageSucceeds U c p s (w\<lparr> fetching := remove1 (p, c) (fetching w) \<rparr>))"
proof -
  let ?L = "pdf w"
  from assms have d: "distinct (map fst (fetching w))"
    by (simp add: consistent_def Let_def)
  note m = map_fst_remove1 [OF d assms(2)]
  from assms(2) have "p \<in> set (map fst (fetching w))"
    by (metis map_of_eq_None_iff option.distinct(1) set_map)
  with assms(1) have pl: "p \<in> set (loadingPages ?L)" by (simp add: consistent_def Let_def)
  with assms(1) have p1: "1 \<le> p" and pn: "\<not> map_has (loadedPages ?L) p"
    by (auto simp: consistent_def Let_def list_all_iff)
  have ms: "map_set (loadedPages ?L) p v = loadedPages ?L @ [(p, v)]" for v
    using pn by (simp add: map_set_def)
  show ?thesis
    using assms(1) d p1 pn rebuild_fields(1)
    by (auto simp: loadPageSucceeds_def Let_def consistent_def set_delete_def list_all_iff m ms
          resolveWaiters_eq rebuild_fields(2-) map_has_def)
qed

lemma consistent_pollTick: "consistent w \<Longrightarrow> consistent (pollTick c p w)"
  by (auto simp: pollTick_def consistent_def Let_def split: option.splits)

lemma consistent_waitForContent: "consistent w \<Longrightarrow> consistent (snd (waitForContent w))"
  by (auto simp: waitForContent_def consistent_def Let_def)

lemma consistent_loadNext: "consistent w \<Longrightarrow> consistent (loadNextPageInBackground w)"
proof -
  assume a: "consistent w"
  have f: "consistent (w\<lparr> pdf := pdf w\<lparr> isBackgroundLoading := False, allPagesLoaded := True \<rparr>,
                         calls := x \<rparr>)" for x
    using a by (simp add: consistent_def Let_def)
  show ?thesis
    using a f by (simp add: loadNextPageInBackground_def Let_def consistent_loadPage)
qed

lemma consistent_start: "consistent w \<Longrightarrow> consistent (startBackgroundLoading w)"
proof -
  assume a: "consistent w"
  have "consistent (w\<lparr> pdf := pdf w\<lparr> isBackgroundLoading := True \<rparr> \<rparr>)"
    using a by (simp add: consistent_def Let_def)
  then show ?thesis using a by (simp add: startBackgroundLoading_def Let_def consistent_loadNext)
qed

lemma consistent_resumes: "consistent w \<Longrightarrow> consistent (backgroundResumes ok w)"
  by (simp add: backgroundResumes_def consistent_def Let_def)

lemma consistent_step: "consistent w \<Longrightarrow> consistent (step U w e)"
  by (cases e)
     (auto simp: consistent_loadPage consistent_loadPageSucceeds consistent_loadPageFails
        consistent_pollTick consistent_waitForContent consistent_start consistent_resumes
        consistent_loadNext
      split: option.splits bg_state.splits)

lemma consistent_run: "consistent w \<Longrightarrow> consistent (run U w evs)"
  unfolding run_def by (induction evs arbitrary: w) (auto simp: consistent_step)

lemma consistent_reachable: "consistent (run U (newWorld n) evs)"
  by (rule consistent_run [OF consistent_newWorld])

subsection \<open>Evaluation of concrete runs\<close>


lemmas tokenizer_eval = tokenize_def tokenizePage_def normalizeText_def replace_cr_def
  splitParagraphs_def trim_def js_space_def match_token_def match_http_def match_www_def
  match_word_def match_punct_def url_tail_def nonspace_run_def isLN_def ascii_alnum_def
  isWordLike_def ascii_lower_def cps_def Let_def

lemmas loader_eval = run_def newWorld_def newLoader_def loadPage_def loadPageSucceeds_def
  loadPageFails_def pollTick_def waitForContent_def loadNextPageInBackground_def
  startBackgroundLoading_def backgroundResumes_def settle_def map_has_def map_get_def
  map_set_def set_add_def set_delete_def array_set_def array_get_def aggregate_def
  rebuildAggregatedContent_def resolveWaiters_def


subsection \<open>A page that finishes loading\<close>


lemma sorted_split_at:
  fixes ks :: "int list"
  assumes "sorted ks" and "p \<notin> set ks"
  shows "ks = filter (\<lambda>k. k < p) ks @ filter (\<lambda>k. p < k) ks"
  using assms
proof (induction ks)
  case Nil
  then show ?case by simp
next
  case (Cons x xs)
  show ?case
  proof (cases "x < p")
    case True
    with Cons show ?thesis by simp
  next
    case False
    with Cons.prems have "p < x" by auto
    with Cons.prems have "\<forall>k\<in>set (x # xs). p < k" by auto
    then have "filter (\<lambda>k. k < p) (x # xs) = []" "filter (\<lambda>k. p < k) (x # xs) = x # xs"
      by (auto simp: filter_empty_conv)
    then show ?thesis by simp
  qed
qed

lemma sort_snoc_split:
  fixes keys :: "int list"
  assumes "p \<notin> set keys" and "distinct keys"
  defines "ks \<equiv> sort keys"
  shows "sort (keys @ [p]) = filter (\<lambda>k. k < p) ks @ [p] @ filter (\<lambda>k. p < k) ks"
proof (rule sorted_distinct_set_unique)
  have s: "sorted ks" and np: "p \<notin> set ks" and d: "distinct ks"
    using assms by (simp_all add: ks_def)
  show "sorted (sort (keys @ [p]))" by simp
  show "distinct (sort (keys @ [p]))" using assms by simp
  show "sorted (filter (\<lambda>k. k < p) ks @ [p] @ filter (\<lambda>k. p < k) ks)"
    using s by (auto simp: sorted_append intro: sorted_filter [where f = "\<lambda>x. x", simplified])
  show "distinct (filter (\<lambda>k. k < p) ks @ [p] @ filter (\<lambda>k. p < k) ks)"
    using d by auto
  show "set (sort (keys @ [p])) = set (filter (\<lambda>k. k < p) ks @ [p] @ filter (\<lambda>k. p < k) ks)"
    using np by (auto simp: ks_def)
qed

lemma wordsOf_snoc:
  "wordsOf (pages @ [(p, pd)]) k
     = (if map_has pages k then wordsOf pages k else if k = p then words pd else [])"
proof (cases "map_of pages k")
  case None
  then have "\<not> map_has pages k" by (simp add: map_has_def map_of_eq_None_iff)
  with None show ?thesis by (simp add: wordsOf_def map_get_def map_add_def)
next
  case (Some a)
  then have "map_has pages k"
    by (metis map_has_def map_of_eq_None_iff option.distinct(1) set_map)
  with Some show ?thesis by (simp add: wordsOf_def map_get_def map_add_def)
qed

lemma aggregate_words:
  assumes "distinct (map fst pages)" and "\<forall>k\<in>set (map fst pages). 1 \<le> k"
  shows "fst (snd (aggregate pages)) = concat (map (wordsOf pages) (sort (map fst pages)))"
  using aggregate_props [OF assms] by auto

lemma aggregate_words_snoc:
  fixes pages :: "(int \<times> page_data) list"
  assumes d: "distinct (map fst pages)" and pos: "\<forall>k\<in>set (map fst pages). 1 \<le> k"
    and p: "p \<notin> set (map fst pages)" and p1: "1 \<le> p"
  defines "old \<equiv> fst (snd (aggregate pages))"
  shows "fst (snd (aggregate (pages @ [(p, pd)])))
         = take (offsetOf pages p) old @ words pd @ drop (offsetOf pages p) old"
proof -
  define ks where "ks = sort (map fst pages)"
  let ?A = "filter (\<lambda>k. k < p) ks" and ?B = "filter (\<lambda>k. p < k) ks"
  let ?W = "wordsOf pages" and ?W' = "wordsOf (pages @ [(p, pd)])"
  have s: "sorted ks" and np: "p \<notin> set ks" using p by (simp_all add: ks_def)
  have split: "ks = ?A @ ?B" by (rule sorted_split_at [OF s np])
  have old: "old = concat (map ?W ?A) @ concat (map ?W ?B)"
    unfolding old_def aggregate_words [OF d pos] ks_def [symmetric]
    by (subst split) simp
  have keys': "sort (map fst (pages @ [(p, pd)])) = ?A @ [p] @ ?B"
    using sort_snoc_split [OF p d] by (simp add: ks_def)
  have d': "distinct (map fst (pages @ [(p, pd)]))" using d p by simp
  have pos': "\<forall>k\<in>set (map fst (pages @ [(p, pd)])). 1 \<le> k" using pos p1 by simp
  have same: "?W' k = ?W k" if "k \<in> set ks" for k
    using that by (simp add: wordsOf_snoc map_has_def ks_def)
  have mA: "map ?W' ?A = map ?W ?A" by (rule map_cong) (auto intro: same)
  have mB: "map ?W' ?B = map ?W ?B" by (rule map_cong) (auto intro: same)
  have Wp: "?W' p = words pd" using p by (simp add: wordsOf_snoc map_has_def)
  have new: "fst (snd (aggregate (pages @ [(p, pd)])))
      = concat (map ?W ?A) @ words pd @ concat (map ?W ?B)"
    unfolding aggregate_words [OF d' pos'] keys' by (simp add: mA mB Wp)
  have off: "offsetOf pages p = length (concat (map ?W ?A))"
    by (simp add: offsetOf_def ks_def)
  show ?thesis unfolding new old off by simp
qed

lemma concat_filter_le:
  "length (concat (map f (filter P xs))) \<le> length (concat (map f xs))"
  by (induction xs) auto

lemma offsetOf_le:
  assumes "distinct (map fst pages)" and "\<forall>k\<in>set (map fst pages). 1 \<le> k"
  shows "offsetOf pages p \<le> length (fst (snd (aggregate pages)))"
  unfolding aggregate_words [OF assms] offsetOf_def by (rule concat_filter_le)

lemma offsetOf_top:
  assumes "distinct (map fst pages)" and "\<forall>k\<in>set (map fst pages). 1 \<le> k"
    and "\<forall>k\<in>set (map fst pages). k < p"
  shows "offsetOf pages p = length (fst (snd (aggregate pages)))"
proof -
  have "filter (\<lambda>k. k < p) (sort (map fst pages)) = sort (map fst pages)"
    using assms(3) by (simp add: filter_id_conv)
  then show ?thesis unfolding aggregate_words [OF assms(1,2)] offsetOf_def by simp
qed


lemma consistent_fields:
  assumes "consistent w"
  shows "distinct (map fst (loadedPages (pdf w)))"
    and "\<forall>k\<in>set (map fst (loadedPages (pdf w))). 1 \<le> k"
    and "aggregate (loadedPages (pdf w)) = (allText (pdf w), allWords (pdf w), pageWordRanges (pdf w))"
    and "allWords (pdf w) = fst (snd (aggregate (loadedPages (pdf w))))"
  using assms by (auto simp: consistent_def Let_def list_all_iff dest: sym)

lemma allWords_step_load:
  fixes U :: "cp \<Rightarrow> bool"
  assumes "consistent w" and "map_of (fetching w) p = Some c"
  defines "pages \<equiv> loadedPages (pdf w)" and "old \<equiv> allWords (pdf w)"
  shows "allWords (pdf (step U w (FetchSucceeds p s)))
         = take (offsetOf pages p) old @ tokenizePage U s @ drop (offsetOf pages p) old"
proof -
  let ?L = "pdf w"
  from assms(2) have "p \<in> set (map fst (fetching w))"
    by (metis map_of_eq_None_iff option.distinct(1) set_map)
  with assms(1) have pl: "p \<in> set (loadingPages ?L)" by (simp add: consistent_def Let_def)
  with assms(1) have p1: "1 \<le> p" and pn: "\<not> map_has (loadedPages ?L) p"
    by (auto simp: consistent_def Let_def list_all_iff)
  have ms: "map_set (loadedPages ?L) p v = loadedPages ?L @ [(p, v)]" for v
    using pn by (simp add: map_set_def)
  have "allWords (pdf (step U w (FetchSucceeds p s)))
        = fst (snd (aggregate (pages @ [(p, \<lparr>text = s, words = tokenizePage U s\<rparr>)])))"
    using assms(2)
    by (simp add: loadPageSucceeds_def Let_def ms resolveWaiters_eq pages_def
          rebuildAggregatedContent_def split: prod.splits)
  also have "\<dots> = take (offsetOf pages p) old @ tokenizePage U s @ drop (offsetOf pages p) old"
    using aggregate_words_snoc [OF consistent_fields(1,2) [OF assms(1)], of p
            "\<lparr>text = s, words = tokenizePage U s\<rparr>"] pn p1
    by (simp add: pages_def old_def map_has_def consistent_fields(4) [OF assms(1)])
  finally show ?thesis .
qed

lemma stored_after_load:
  fixes U :: "cp \<Rightarrow> bool"
  assumes "consistent w" and "map_of (fetching w) p = Some c"
  shows "map_get (loadedPages (pdf (step U w (FetchSucceeds p s)))) p
         = Some \<lparr>text = s, words = tokenizePage U s\<rparr>"
proof -
  let ?L = "pdf w"
  from assms(2) have "p \<in> set (map fst (fetching w))"
    by (metis map_of_eq_None_iff option.distinct(1) set_map)
  with assms(1) have pl: "p \<in> set (loadingPages ?L)" by (simp add: consistent_def Let_def)
  with assms(1) have pn: "\<not> map_has (loadedPages ?L) p"
    by (auto simp: consistent_def Let_def list_all_iff)
  have ms: "map_set (loadedPages ?L) p v = loadedPages ?L @ [(p, v)]" for v
    using pn by (simp add: map_set_def)
  have nk: "map_of (loadedPages ?L) p = None"
    using pn by (simp add: map_has_def map_of_eq_None_iff)
  show ?thesis
    using assms(2) nk
    by (simp add: loadPageSucceeds_def Let_def ms resolveWaiters_eq rebuild_fields(2)
          map_get_def map_add_def split: prod.splits)
qed

lemma allWords_step_other:
  assumes "\<forall>p s. e = FetchSucceeds p s \<longrightarrow> map_of (fetching w) p = None"
  shows "allWords (pdf (step U w e)) = allWords (pdf w)"
proof (cases e)
  case (CallLoadPage c p)
  then show ?thesis by (simp add: loadPage_def Let_def split: option.splits)
next
  case (FetchSucceeds p s)
  with assms show ?thesis by simp
next
  case (FetchFails p)
  then show ?thesis by (simp add: loadPageFails_def Let_def split: option.splits)
next
  case (PollTick c p)
  then show ?thesis by (simp add: pollTick_def split: option.splits)
next
  case CallWaitForContent
  then show ?thesis by (simp add: waitForContent_def Let_def)
next
  case CallStartBackgroundLoading
  then show ?thesis
    by (simp add: startBackgroundLoading_def loadNextPageInBackground_def loadPage_def Let_def
             split: option.splits)
next
  case BackgroundResumes
  then show ?thesis by (simp add: backgroundResumes_def split: bg_state.splits)
next
  case BackgroundTimerFires
  then show ?thesis
    by (simp add: loadNextPageInBackground_def loadPage_def Let_def
             split: option.splits bg_state.splits)
qed

lemma step_insertion:
  fixes U :: "cp \<Rightarrow> bool" and e :: event
  assumes "consistent w"
  defines "old \<equiv> allWords (pdf w)" and "new \<equiv> allWords (pdf (step U w e))"
    and "pos \<equiv> insertPos w e"
  shows "pos \<le> length old \<and> (\<exists>ins. new = take pos old @ ins @ drop pos old)"
proof -
  note cf = consistent_fields [OF assms(1)]
  show ?thesis
  proof (cases "\<exists>p s c. e = FetchSucceeds p s \<and> map_of (fetching w) p = Some c")
    case True
    then obtain p s c where e: "e = FetchSucceeds p s" and f: "map_of (fetching w) p = Some c"
      by blast
    have "pos = offsetOf (loadedPages (pdf w)) p" by (simp add: pos_def insertPos_def e)
    moreover have "offsetOf (loadedPages (pdf w)) p \<le> length old"
      using offsetOf_le [OF cf(1,2)] by (simp add: old_def cf(4))
    ultimately show ?thesis
      using allWords_step_load [OF assms(1) f, of U s] by (auto simp: new_def old_def e)
  next
    case False
    then have "\<forall>p s. e = FetchSucceeds p s \<longrightarrow> map_of (fetching w) p = None" by auto
    then have same: "new = old" unfolding new_def old_def by (rule allWords_step_other)
    have "pos \<le> length old"
      using offsetOf_le [OF cf(1,2)]
      by (cases e) (simp_all add: pos_def insertPos_def old_def cf(4))
    moreover have "new = take pos old @ [] @ drop pos old" using same by simp
    ultimately show ?thesis by blast
  qed
qed

subsection \<open>The aggregated sequence and the word ranges\<close>


text \<open>
  Claim C2. In every state the loader reaches, whatever the order in which the pages
  finished loading, any two loaded pages \<open>p < q\<close> have recorded word ranges; the ranges
  do not overlap, the range of \<open>p\<close> ends before the range of \<open>q\<close> starts, both lie
  inside the aggregated sequence, and the tokens that a range names are the tokens of its
  page.
\<close>

theorem word_ranges_ordered:
  fixes U :: "cp \<Rightarrow> bool" and n :: int and evs :: "event list"
  defines "L \<equiv> pdf (run U (newWorld n) evs)"
  assumes "map_has (loadedPages L) p" and "map_has (loadedPages L) q" and "p < q"
  shows "\<exists>rp rq. array_get (pageWordRanges L) (p - 1) = Some rp
           \<and> array_get (pageWordRanges L) (q - 1) = Some rq
           \<and> {start rp..end rp} \<inter> {start rq..end rq} = {}
           \<and> 0 \<le> start rp \<and> end rp < start rq \<and> end rq < int (length (allWords L))
           \<and> sliceOf rp (allWords L) = wordsOf (loadedPages L) p
           \<and> sliceOf rq (allWords L) = wordsOf (loadedPages L) q"
proof -
  have c: "consistent (run U (newWorld n) evs)" by (rule consistent_reachable)
  note cf = consistent_fields [OF c, folded L_def]
  from aggregate_ranges_ordered [OF cf(1,2) _ _ assms(4) cf(3)] assms(2,3)
  obtain rp rq where r: "array_get (pageWordRanges L) (p - 1) = Some rp"
      "array_get (pageWordRanges L) (q - 1) = Some rq"
      "0 \<le> start rp" "end rp < start rq" "end rq < int (length (allWords L))"
      "sliceOf rp (allWords L) = wordsOf (loadedPages L) p"
      "sliceOf rq (allWords L) = wordsOf (loadedPages L) q"
    unfolding map_has_def by blast
  from r(4) have "{start rp..end rp} \<inter> {start rq..end rq} = {}" by auto
  with r show ?thesis by blast
qed

theorem word_ranges_ordered_witness:
  "map_has (loadedPages (pdf (run (\<lambda>c. False) (newWorld 3)
       [CallLoadPage 0 2, FetchSucceeds 2 (cps ''b c''), CallLoadPage 1 1, FetchSucceeds 1 (cps ''a'')]))) 1
   \<and> map_has (loadedPages (pdf (run (\<lambda>c. False) (newWorld 3)
       [CallLoadPage 0 2, FetchSucceeds 2 (cps ''b c''), CallLoadPage 1 1, FetchSucceeds 1 (cps ''a'')]))) 2
   \<and> (\<exists>rp rq. array_get (pageWordRanges (pdf (run (\<lambda>c. False) (newWorld 3)
       [CallLoadPage 0 2, FetchSucceeds 2 (cps ''b c''), CallLoadPage 1 1, FetchSucceeds 1 (cps ''a'')]))) 0 = Some rp
         \<and> array_get (pageWordRanges (pdf (run (\<lambda>c. False) (newWorld 3)
       [CallLoadPage 0 2, FetchSucceeds 2 (cps ''b c''), CallLoadPage 1 1, FetchSucceeds 1 (cps ''a'')]))) 1 = Some rq
         \<and> end rp < start rq)"
proof -
  let ?L = "pdf (run (\<lambda>c. False) (newWorld 3)
       [CallLoadPage 0 2, FetchSucceeds 2 (cps ''b c''), CallLoadPage 1 1, FetchSucceeds 1 (cps ''a'')])"
  have h: "map_has (loadedPages ?L) 1" "map_has (loadedPages ?L) 2"
    by (simp_all add: loader_eval tokenizer_eval)
  have lt: "(1::int) < 2" by simp
  from word_ranges_ordered [OF h lt] h show ?thesis by auto
qed

text \<open>
  Claim C1, as stated, fails when a page with a lower number finishes later: page 2 is
  loaded first and its token \<open>b\<close> is at index 0; after page 1 is loaded, index 0 holds
  the token \<open>a\<close> of page 1.
\<close>

theorem lower_ordinal_shifts_tokens:
  "allWords (pdf (run (\<lambda>c. False) (newWorld 2)
      [CallLoadPage 0 2, FetchSucceeds 2 (cps ''b'')])) ! 0
     = \<lparr>word = cps ''b'', isParagraphEnd = False\<rparr>
   \<and> allWords (pdf (run (\<lambda>c. False) (newWorld 2)
      [CallLoadPage 0 2, FetchSucceeds 2 (cps ''b''), CallLoadPage 1 1, FetchSucceeds 1 (cps ''a'')])) ! 0
     = \<lparr>word = cps ''a'', isParagraphEnd = False\<rparr>"
  by (simp add: loader_eval tokenizer_eval)

text \<open>
  Claim C1, as the code has it. From any state the loader reaches, an event never
  shortens the aggregated sequence. When the request for page \<open>p\<close> delivers the text
  \<open>s\<close>, the page is stored with the tokens \<open>tokenizePage U s\<close> and these tokens are put
  into the sequence at \<open>insertPos\<close>, behind the tokens of the loaded pages with smaller
  numbers: the tokens before that position keep their indices and the tokens from that
  position on move up by the number of new tokens. When the number of the page is above
  every loaded page, the new tokens are appended and every index assigned before keeps
  its token. Any other event leaves the sequence as it is.
\<close>

theorem aggregated_sequence_insertion:
  fixes U :: "cp \<Rightarrow> bool" and n :: int and evs :: "event list" and e :: event
  defines "w \<equiv> run U (newWorld n) evs"
  defines "old \<equiv> allWords (pdf w)" and "new \<equiv> allWords (pdf (step U w e))"
    and "pos \<equiv> insertPos w e"
  shows "(\<forall>p s. e = FetchSucceeds p s \<and> map_of (fetching w) p \<noteq> None \<longrightarrow>
            new = take pos old @ tokenizePage U s @ drop pos old
            \<and> map_get (loadedPages (pdf (step U w e))) p
                = Some \<lparr>text = s, words = tokenizePage U s\<rparr>)
       \<and> ((\<forall>p s. e = FetchSucceeds p s \<longrightarrow> map_of (fetching w) p = None) \<longrightarrow> new = old)
       \<and> length old \<le> length new \<and> pos \<le> length old
       \<and> take pos new = take pos old
       \<and> drop (pos + (length new - length old)) new = drop pos old
       \<and> (\<forall>p s. e = FetchSucceeds p s \<and> map_of (fetching w) p \<noteq> None
                \<and> list_all (\<lambda>k. k < p) (map fst (loadedPages (pdf w)))
              \<longrightarrow> new = old @ tokenizePage U s)
       \<and> ((\<exists>p s. e = FetchSucceeds p s \<and> list_all (\<lambda>k. k < p) (map fst (loadedPages (pdf w))))
            \<longrightarrow> take (length old) new = old)"
proof -
  have c: "consistent w" unfolding w_def by (rule consistent_reachable)
  note cf = consistent_fields [OF c]
  from step_insertion [OF c, of e U]
  obtain ins where le: "pos \<le> length old" and new: "new = take pos old @ ins @ drop pos old"
    unfolding old_def new_def pos_def by blast
  have len: "length new = length old + length ins" using le by (simp add: new)
  have a: "take pos new = take pos old" using le by (simp add: new)
  have b: "drop (pos + (length new - length old)) new = drop pos old"
    using le by (simp add: len) (simp add: new)
  have top: "pos = length old"
    if "e = FetchSucceeds p s" and "list_all (\<lambda>k. k < p) (map fst (loadedPages (pdf w)))" for p s
  proof -
    have "pos = offsetOf (loadedPages (pdf w)) p" using that(1) by (simp add: pos_def insertPos_def)
    also have "\<dots> = length old"
      using offsetOf_top [OF cf(1,2), of p] that(2) by (simp add: list_all_iff old_def cf(4))
    finally show ?thesis .
  qed
  have d: "take (length old) new = old"
    if "e = FetchSucceeds p s" and "list_all (\<lambda>k. k < p) (map fst (loadedPages (pdf w)))" for p s
    using top [OF that] a by simp
  have load: "new = take pos old @ tokenizePage U s @ drop pos old
            \<and> map_get (loadedPages (pdf (step U w e))) p
                = Some \<lparr>text = s, words = tokenizePage U s\<rparr>"
    if e: "e = FetchSucceeds p s" and f: "map_of (fetching w) p \<noteq> None" for p s
  proof -
    from f obtain cl where cl: "map_of (fetching w) p = Some cl" by auto
    have eq: "new = take pos old @ tokenizePage U s @ drop pos old"
      using allWords_step_load [OF c cl, of U s]
      by (simp add: new_def old_def pos_def insertPos_def e)
    have st: "map_get (loadedPages (pdf (step U w e))) p
                = Some \<lparr>text = s, words = tokenizePage U s\<rparr>"
      using stored_after_load [OF c cl, of U s] by (simp add: e)
    from eq st show ?thesis by simp
  qed
  have app: "new = old @ tokenizePage U s"
    if "e = FetchSucceeds p s" and "map_of (fetching w) p \<noteq> None"
      and "list_all (\<lambda>k. k < p) (map fst (loadedPages (pdf w)))" for p s
    using load [OF that(1,2)] top [OF that(1,3)] by simp
  have other: "new = old" if "\<forall>p s. e = FetchSucceeds p s \<longrightarrow> map_of (fetching w) p = None"
    unfolding new_def old_def using that by (rule allWords_step_other)
  show ?thesis
    using len le a b d load app other by (intro conjI allI impI) (simp_all, blast+)
qed

theorem aggregated_sequence_insertion_witness:
  "map_of (fetching (run (\<lambda>c. False) (newWorld 2)
       [CallLoadPage 0 2, FetchSucceeds 2 (cps ''b c''), CallLoadPage 3 1])) 1 = Some (Client 3)
   \<and> allWords (pdf (run (\<lambda>c. False) (newWorld 2)
       [CallLoadPage 0 2, FetchSucceeds 2 (cps ''b c''), CallLoadPage 3 1]))
      = [\<lparr>word = cps ''b'', isParagraphEnd = False\<rparr>, \<lparr>word = cps ''c'', isParagraphEnd = False\<rparr>]
   \<and> insertPos (run (\<lambda>c. False) (newWorld 2)
       [CallLoadPage 0 2, FetchSucceeds 2 (cps ''b c''), CallLoadPage 3 1]) (FetchSucceeds 1 (cps ''a'')) = 0
   \<and> allWords (pdf (step (\<lambda>c. False) (run (\<lambda>c. False) (newWorld 2)
       [CallLoadPage 0 2, FetchSucceeds 2 (cps ''b c''), CallLoadPage 3 1]) (FetchSucceeds 1 (cps ''a''))))
      = tokenizePage (\<lambda>c. False) (cps ''a'')
        @ [\<lparr>word = cps ''b'', isParagraphEnd = False\<rparr>, \<lparr>word = cps ''c'', isParagraphEnd = False\<rparr>]
   \<and> tokenizePage (\<lambda>c. False) (cps ''a'') = [\<lparr>word = cps ''a'', isParagraphEnd = False\<rparr>]
   \<and> list_all (\<lambda>k. k < 2) (map fst (loadedPages (pdf (run (\<lambda>c. False) (newWorld 2)
       [CallLoadPage 0 1, FetchSucceeds 1 (cps ''a''), CallLoadPage 3 2]))))
   \<and> map_of (fetching (run (\<lambda>c. False) (newWorld 2)
       [CallLoadPage 0 1, FetchSucceeds 1 (cps ''a''), CallLoadPage 3 2])) 2 = Some (Client 3)
   \<and> allWords (pdf (step (\<lambda>c. False) (run (\<lambda>c. False) (newWorld 2)
       [CallLoadPage 0 1, FetchSucceeds 1 (cps ''a''), CallLoadPage 3 2]) (FetchSucceeds 2 (cps ''b c''))))
      = allWords (pdf (run (\<lambda>c. False) (newWorld 2)
       [CallLoadPage 0 1, FetchSucceeds 1 (cps ''a''), CallLoadPage 3 2])) @ tokenizePage (\<lambda>c. False) (cps ''b c'')
   \<and> tokenizePage (\<lambda>c. False) (cps ''b c'')
      = [\<lparr>word = cps ''b'', isParagraphEnd = False\<rparr>, \<lparr>word = cps ''c'', isParagraphEnd = False\<rparr>]"
proof -
  let ?w1 = "run (\<lambda>c. False) (newWorld 2) [CallLoadPage 0 2, FetchSucceeds 2 (cps ''b c''), CallLoadPage 3 1]"
  let ?w2 = "run (\<lambda>c. False) (newWorld 2) [CallLoadPage 0 1, FetchSucceeds 1 (cps ''a''), CallLoadPage 3 2]"
  have f1: "map_of (fetching ?w1) 1 = Some (Client 3)"
    and o1: "allWords (pdf ?w1)
      = [\<lparr>word = cps ''b'', isParagraphEnd = False\<rparr>, \<lparr>word = cps ''c'', isParagraphEnd = False\<rparr>]"
    by (simp_all add: loader_eval tokenizer_eval)
  have p1: "insertPos ?w1 (FetchSucceeds 1 (cps ''a'')) = 0"
    by (simp add: insertPos_def offsetOf_def loader_eval tokenizer_eval)
  have h2: "list_all (\<lambda>k. k < 2) (map fst (loadedPages (pdf ?w2)))"
    and f2: "map_of (fetching ?w2) 2 = Some (Client 3)"
    by (simp_all add: loader_eval tokenizer_eval)
  have t: "tokenizePage (\<lambda>c. False) (cps ''a'') = [\<lparr>word = cps ''a'', isParagraphEnd = False\<rparr>]"
    "tokenizePage (\<lambda>c. False) (cps ''b c'')
      = [\<lparr>word = cps ''b'', isParagraphEnd = False\<rparr>, \<lparr>word = cps ''c'', isParagraphEnd = False\<rparr>]"
    by (simp_all add: tokenizer_eval)
  have n1: "allWords (pdf (step (\<lambda>c. False) ?w1 (FetchSucceeds 1 (cps ''a''))))
      = tokenizePage (\<lambda>c. False) (cps ''a'') @ allWords (pdf ?w1)"
    using aggregated_sequence_insertion [where U = "\<lambda>c. False" and n = 2
         and evs = "[CallLoadPage 0 2, FetchSucceeds 2 (cps ''b c''), CallLoadPage 3 1]"
         and e = "FetchSucceeds 1 (cps ''a'')"]
       f1
    unfolding p1 by (elim conjE) simp
  have n2: "allWords (pdf (step (\<lambda>c. False) ?w2 (FetchSucceeds 2 (cps ''b c''))))
      = allWords (pdf ?w2) @ tokenizePage (\<lambda>c. False) (cps ''b c'')"
    using aggregated_sequence_insertion [where U = "\<lambda>c. False" and n = 2
         and evs = "[CallLoadPage 0 1, FetchSucceeds 1 (cps ''a''), CallLoadPage 3 2]"
         and e = "FetchSucceeds 2 (cps ''b c'')"]
       f2 h2
    by (elim conjE) blast
  show ?thesis
    using f1 o1 p1 n1 h2 f2 n2 t by (simp only: simp_thms)
qed

text \<open>
  Claim C10. For a page text that is empty or holds only white space, \<open>tokenizePage\<close>
  returns no token while \<open>tokenize\<close> returns the single token of one space; a page with
  such a text, when it finishes loading, leaves the aggregated sequence as it was.
\<close>

theorem blank_page_no_tokens:
  assumes "list_all js_space s"
  shows "tokenizePage U s = []
       \<and> tokenize U s = [\<lparr>word = [32], isParagraphEnd = False\<rparr>]
       \<and> allWords (pdf (step U (run U (newWorld n) evs) (FetchSucceeds p s)))
           = allWords (pdf (run U (newWorld n) evs))"
proof -
  let ?w = "run U (newWorld n) evs"
  have b: "\<forall>c\<in>set s. js_space c" using assms by (simp add: list_all_iff)
  have t: "tokenizePage U s = []" by (rule tokenizePage_blank [OF b])
  have c: "consistent ?w" by (rule consistent_reachable)
  have "allWords (pdf (step U ?w (FetchSucceeds p s))) = allWords (pdf ?w)"
  proof (cases "map_of (fetching ?w) p")
    case None
    then show ?thesis by (intro allWords_step_other) simp
  next
    case (Some a)
    from allWords_step_load [OF c Some, of U s] show ?thesis by (simp add: t)
  qed
  with t tokenize_blank [OF b] show ?thesis by simp
qed

theorem blank_page_no_tokens_witness:
  "list_all js_space [32, 10, 9]
   \<and> tokenizePage (\<lambda>c. False) [32, 10, 9] = []
   \<and> tokenize (\<lambda>c. False) [32, 10, 9] = [\<lparr>word = [32], isParagraphEnd = False\<rparr>]
   \<and> map_has (loadedPages (pdf (step (\<lambda>c. False) (run (\<lambda>c. False) (newWorld 2)
        [CallLoadPage 0 1, FetchSucceeds 1 (cps ''a''), CallLoadPage 1 2]) (FetchSucceeds 2 [32, 10, 9])))) 2
   \<and> allWords (pdf (step (\<lambda>c. False) (run (\<lambda>c. False) (newWorld 2)
        [CallLoadPage 0 1, FetchSucceeds 1 (cps ''a''), CallLoadPage 1 2]) (FetchSucceeds 2 [32, 10, 9])))
      = [\<lparr>word = cps ''a'', isParagraphEnd = False\<rparr>]"
proof -
  let ?w = "run (\<lambda>c. False) (newWorld 2) [CallLoadPage 0 1, FetchSucceeds 1 (cps ''a''), CallLoadPage 1 2]"
  have h: "list_all js_space [32, 10, 9]" by (simp add: js_space_def)
  have o: "allWords (pdf ?w) = [\<lparr>word = cps ''a'', isParagraphEnd = False\<rparr>]"
    by (simp add: loader_eval tokenizer_eval)
  have m: "map_has (loadedPages (pdf (step (\<lambda>c. False) ?w (FetchSucceeds 2 [32, 10, 9])))) 2"
    by (simp add: loader_eval tokenizer_eval)
  from blank_page_no_tokens [OF h, of "\<lambda>c. False" 2
         "[CallLoadPage 0 1, FetchSucceeds 1 (cps ''a''), CallLoadPage 1 2]" 2] h o m
  show ?thesis by simp
qed

section \<open>Waiting callers of the loader\<close>


text \<open>
  Claim C3, as the code has it. The promise of \<open>waitForContent\<close> is resolved at once
  when no page is loading and the background cycle is not active; otherwise its resolve
  function is queued behind the waiters registered before. A page load that succeeds
  releases every registered waiter, in the order of registration, and leaves the queue
  empty.
\<close>

theorem waiters_released_by_page_load:
  "(let (p, w') = waitForContent w
    in p = nextWaiter w
       \<and> (if loadingPages (pdf w) = [] \<and> \<not> isBackgroundLoading (pdf w)
           then released w' = released w @ [p]
                \<and> contentWaiters (pdf w') = contentWaiters (pdf w)
           else released w' = released w
                \<and> contentWaiters (pdf w') = contentWaiters (pdf w) @ [p]))
   \<and> (map_of (fetching w) pageNum = Some c \<longrightarrow>
         released (step U w (FetchSucceeds pageNum s)) = released w @ contentWaiters (pdf w)
         \<and> contentWaiters (pdf (step U w (FetchSucceeds pageNum s))) = [])"
proof -
  have a: "(let (p, w') = waitForContent w
    in p = nextWaiter w
       \<and> (if loadingPages (pdf w) = [] \<and> \<not> isBackgroundLoading (pdf w)
           then released w' = released w @ [p]
                \<and> contentWaiters (pdf w') = contentWaiters (pdf w)
           else released w' = released w
                \<and> contentWaiters (pdf w') = contentWaiters (pdf w) @ [p]))"
    by (auto simp: waitForContent_def Let_def)
  have b: "released (step U w (FetchSucceeds pageNum s)) = released w @ contentWaiters (pdf w)
         \<and> contentWaiters (pdf (step U w (FetchSucceeds pageNum s))) = []"
    if "map_of (fetching w) pageNum = Some c"
    using that
    by (simp add: loadPageSucceeds_def Let_def resolveWaiters_eq rebuild_fields split: prod.splits)
  from a b show ?thesis by blast
qed

theorem waiters_released_by_page_load_witness:
  "map_of (fetching (run (\<lambda>c. False) (newWorld 2)
       [CallStartBackgroundLoading, CallWaitForContent, CallWaitForContent])) 1 = Some Background
   \<and> contentWaiters (pdf (run (\<lambda>c. False) (newWorld 2)
       [CallStartBackgroundLoading, CallWaitForContent, CallWaitForContent])) = [0, 1]
   \<and> released (step (\<lambda>c. False) (run (\<lambda>c. False) (newWorld 2)
       [CallStartBackgroundLoading, CallWaitForContent, CallWaitForContent]) (FetchSucceeds 1 (cps ''a'')))
      = [0, 1]
   \<and> contentWaiters (pdf (step (\<lambda>c. False) (run (\<lambda>c. False) (newWorld 2)
       [CallStartBackgroundLoading, CallWaitForContent, CallWaitForContent]) (FetchSucceeds 1 (cps ''a''))))
      = []"
proof -
  let ?w = "run (\<lambda>c. False) (newWorld 2) [CallStartBackgroundLoading, CallWaitForContent, CallWaitForContent]"
  have f: "map_of (fetching ?w) 1 = Some Background"
    and q: "contentWaiters (pdf ?w) = [0, 1]" and r: "released ?w = []"
    by (simp_all add: loader_eval)
  from waiters_released_by_page_load [of ?w 1 Background "\<lambda>c. False" "cps ''a''"] f q r
  show ?thesis by simp
qed

text \<open>
  Claim C3, as stated, fails: a waiter registered while the background cycle is active
  is released by the load of page 1 of 2, while the cycle is still active and before it
  requests page 2.
\<close>

theorem waiter_released_while_background_active:
  "contentWaiters (pdf (run (\<lambda>c. False) (newWorld 2)
       [CallStartBackgroundLoading, CallWaitForContent])) = [0]
   \<and> released (run (\<lambda>c. False) (newWorld 2)
       [CallStartBackgroundLoading, CallWaitForContent, FetchSucceeds 1 (cps ''a'')]) = [0]
   \<and> isBackgroundLoading (pdf (run (\<lambda>c. False) (newWorld 2)
       [CallStartBackgroundLoading, CallWaitForContent, FetchSucceeds 1 (cps ''a'')]))
   \<and> fetching (run (\<lambda>c. False) (newWorld 2)
       [CallStartBackgroundLoading, CallWaitForContent, FetchSucceeds 1 (cps ''a''),
        BackgroundResumes, BackgroundTimerFires]) = [(2, Background)]"
  by (simp add: loader_eval tokenizer_eval)

lemma pollTick_not_loaded: "\<not> map_has (loadedPages (pdf w)) p \<Longrightarrow> pollTick c p w = w"
  by (simp add: pollTick_def)

lemma run_replicate_fixed: "step U w e = w \<Longrightarrow> run U w (replicate k e) = w"
  unfolding run_def by (induction k) auto

lemma run_append: "run U w (xs @ ys) = run U (run U w xs) ys"
  by (simp add: run_def)

text \<open>
  Claim C4, at the input where the code departs from it. Two callers ask for page 1 of a
  document of one page: the first call issues the request, the second issues none and
  polls. The request fails: the first caller is released with the failure, the second
  stays polling, and no number of firings of its interval changes that.
\<close>

theorem joined_caller_left_polling:
  "fetching (run (\<lambda>c. False) (newWorld 1) [CallLoadPage 0 1, CallLoadPage 1 1]) = [(1, Client 0)]
   \<and> polling (run (\<lambda>c. False) (newWorld 1) [CallLoadPage 0 1, CallLoadPage 1 1]) = [(Client 1, 1)]
   \<and> settled (run (\<lambda>c. False) (newWorld 1) [CallLoadPage 0 1, CallLoadPage 1 1, FetchFails 1])
        = [(Client 0, Failure)]
   \<and> polling (run (\<lambda>c. False) (newWorld 1) [CallLoadPage 0 1, CallLoadPage 1 1, FetchFails 1])
        = [(Client 1, 1)]
   \<and> run (\<lambda>c. False) (newWorld 1)
        ([CallLoadPage 0 1, CallLoadPage 1 1, FetchFails 1] @ replicate k (PollTick (Client 1) 1))
        = run (\<lambda>c. False) (newWorld 1) [CallLoadPage 0 1, CallLoadPage 1 1, FetchFails 1]"
proof -
  let ?w = "run (\<lambda>c. False) (newWorld 1) [CallLoadPage 0 1, CallLoadPage 1 1, FetchFails 1]"
  have "\<not> map_has (loadedPages (pdf ?w)) 1" by (simp add: loader_eval)
  then have "step (\<lambda>c. False) ?w (PollTick (Client 1) 1) = ?w"
    by (simp add: pollTick_not_loaded)
  then have "run (\<lambda>c. False) ?w (replicate k (PollTick (Client 1) 1)) = ?w"
    by (rule run_replicate_fixed)
  then show ?thesis unfolding run_append by (simp add: loader_eval)
qed

text \<open>
  What holds of concurrent calls of \<open>loadPage\<close>: a loaded page is returned at once, a
  call for a page that is being loaded issues no request, no page has two requests in
  flight, and a polling caller gets the text once the page is loaded.
\<close>

lemma loadPage_loaded:
  assumes "1 \<le> p" and "p \<le> totalPages (pdf w)" and "map_get (loadedPages (pdf w)) p = Some pd"
  shows "loadPage c p w = settle c (Text (text pd)) w"
proof -
  from assms(3) have "map_has (loadedPages (pdf w)) p"
    by (metis map_get_def map_has_def map_of_eq_None_iff option.distinct(1) set_map)
  with assms show ?thesis by (simp add: loadPage_def Let_def)
qed

lemma loadPage_joins_in_flight:
  assumes "1 \<le> p" and "p \<le> totalPages (pdf w)" and "\<not> map_has (loadedPages (pdf w)) p"
    and "p \<in> set (loadingPages (pdf w))"
  shows "loadPage c p w = w\<lparr> polling := polling w @ [(c, p)] \<rparr>"
  using assms by (simp add: loadPage_def Let_def)

lemma one_fetch_per_page: "distinct (map fst (fetching (run U (newWorld n) evs)))"
  using consistent_reachable [of U n evs] by (simp add: consistent_def Let_def)

lemma pollTick_loaded:
  assumes "map_get (loadedPages (pdf w)) p = Some pd"
  shows "pollTick c p w = settle c (Text (text pd)) (w\<lparr> polling := remove1 (c, p) (polling w) \<rparr>)"
proof -
  from assms have "map_has (loadedPages (pdf w)) p"
    by (metis map_get_def map_has_def map_of_eq_None_iff option.distinct(1) set_map)
  with assms show ?thesis by (simp add: pollTick_def)
qed

section \<open>The scheduler and the rate\<close>

lemma stopLoop_fields [simp]:
  "isPlaying (stopLoop a) = isPlaying a" "wpm (stopLoop a) = wpm a"
  "timerId (stopLoop a) = None" "words' (stopLoop a) = words' a" "index (stopLoop a) = index a"
  "playIconHidden (stopLoop a) = playIconHidden a" "pauseIconHidden (stopLoop a) = pauseIconHidden a"
  by (simp_all add: stopLoop_def split: option.splits)


lemma showLoadingOverlay_wpm [simp]: "wpm (showLoadingOverlay sh a) = wpm a"
  by (simp add: showLoadingOverlay_def Let_def)


text \<open>The base interval and the dwell are \<open>null\<close> exactly for a rate that is at most 0.\<close>

lemma baseIntervalMs_null: "(baseIntervalMs rate = None) = js_le rate (Num 0)"
  by (simp add: baseIntervalMs_def)

lemma dwell_null: "js_le rate (Num 0) \<Longrightarrow> dwellMsForToken U rate key tok = Inr None"
  by (simp add: dwellMsForToken_def baseIntervalMs_def)











end
